theory Spec2Isabelle
  imports Main "HOL-Library.Sublist"
begin

section \<open>Strings, errors and the character tables\<close>

text \<open>
  A Python \<open>str\<close> is a sequence of Unicode code points, and \<open>len\<close>, indexing and slicing
  count code points. A code point is modelled as a natural number and a string as a list of
  them. The exceptions the functions of \<open>pythainlp/util/normalize.py\<close> can raise are values
  of \<open>error\<close>; a function that can raise returns \<open>error + 'a\<close>.
\<close>

type_synonym uchar = nat
type_synonym ustring = "uchar list"

datatype error = IndexError | KeyError

text \<open>
  The character classes are imported from the package root (\<open>from pythainlp import
  thai_consonants as consonants\<close>, ...), which is not part of the sources at hand. Every
  function below takes the class it uses as a parameter, and the general theorems hold for
  every class.
\<close>

text \<open>
  Modelled from the spec: the consonant class of the character-class tables ("static sets
  of codepoints", consonants), whose value is missing with the package root. It is the 44
  consonants of the Thai block of Unicode, U+0E01 to U+0E2E without the vowel letters
  U+0E24 and U+0E26, and is used at concrete inputs only.
\<close>

definition thai_consonants :: ustring where
  "thai_consonants =
     [0x0E01, 0x0E02, 0x0E03, 0x0E04, 0x0E05, 0x0E06, 0x0E07, 0x0E08, 0x0E09, 0x0E0A, 0x0E0B,
      0x0E0C, 0x0E0D, 0x0E0E, 0x0E0F, 0x0E10, 0x0E11, 0x0E12, 0x0E13, 0x0E14, 0x0E15, 0x0E16,
      0x0E17, 0x0E18, 0x0E19, 0x0E1A, 0x0E1B, 0x0E1C, 0x0E1D, 0x0E1E, 0x0E1F, 0x0E20, 0x0E21,
      0x0E22, 0x0E23, 0x0E25, 0x0E27, 0x0E28, 0x0E29, 0x0E2A, 0x0E2B, 0x0E2C, 0x0E2D, 0x0E2E]"

section \<open>The repeat-consonant resolver\<close>

subsection \<open>\<open>_get_repitition_head\<close>\<close>

text \<open>
  \<^verbatim>\<open>head = text
  while (len(head) > 0) and (head[-1] == dup):
      head = head[:-1]
  return head\<close>
\<close>

function get_repitition_head :: "ustring \<Rightarrow> uchar \<Rightarrow> ustring" where
  "get_repitition_head head dup =
     (if length head > 0 \<and> last head = dup then get_repitition_head (butlast head) dup
      else head)"
  by pat_completeness auto
termination
  by (relation "measure (\<lambda>(head, dup). length head)") auto

declare get_repitition_head.simps [simp del]

subsection \<open>\<open>_is_consonant_repeater\<close> and \<open>_update_consonant_repeaters\<close>\<close>

text \<open>
  \<open>word[-1] in consonants\<close> tests a one-character string against the string of consonants,
  which is membership. \<open>word[-2]\<close> is read only when \<open>len(word) > 1\<close>.
\<close>

definition is_consonant_repeater :: "ustring \<Rightarrow> ustring \<Rightarrow> bool" where
  "is_consonant_repeater consonants word \<longleftrightarrow>
     length word > 1 \<and> last word = word ! (length word - 2) \<and> last word \<in> set consonants"

text \<open>
  The module-level dictionary \<open>consonants_repeaters\<close> (initially \<open>{}\<close>) is the state of the
  resolver: a map from a consonant to the list of words registered under it.
\<close>

type_synonym repeaters_index = "uchar \<rightharpoonup> ustring list"

definition consonants_repeaters_initial :: repeaters_index where
  "consonants_repeaters_initial = Map.empty"

fun init_repeaters :: "ustring \<Rightarrow> repeaters_index \<Rightarrow> repeaters_index" where
  "init_repeaters [] m = m"
| "init_repeaters (consonant # rest) m = init_repeaters rest (m(consonant \<mapsto> []))"

fun register_repeaters ::
  "ustring \<Rightarrow> ustring list \<Rightarrow> repeaters_index \<Rightarrow> error + repeaters_index" where
  "register_repeaters consonants [] m = Inr m"
| "register_repeaters consonants (word # rest) m =
     (if is_consonant_repeater consonants word then
        (case m (last word) of
           None \<Rightarrow> Inl KeyError
         | Some ws \<Rightarrow> register_repeaters consonants rest (m(last word \<mapsto> ws @ [word])))
      else register_repeaters consonants rest m)"

text \<open>
  The dictionary is a \<open>Trie\<close>, of which the function only uses the iteration over its
  words; it is modelled as the list of words in iteration order.
\<close>

definition update_consonant_repeaters ::
  "ustring \<Rightarrow> ustring list \<Rightarrow> repeaters_index \<Rightarrow> error + repeaters_index" where
  "update_consonant_repeaters consonants dictionary m =
     register_repeaters consonants dictionary (init_repeaters consonants m)"

subsection \<open>\<open>_find_longest_consonant_repeaters_match\<close>\<close>

text \<open>
  \<open>s[-n:]\<close> for \<open>n \<ge> 0\<close>: the last \<open>n\<close> characters, the whole of \<open>s\<close> when \<open>n\<close> exceeds
  its length, and, since \<open>-0\<close> is \<open>0\<close>, the whole of \<open>s\<close> when \<open>n = 0\<close>.
\<close>

definition slice_last :: "ustring \<Rightarrow> nat \<Rightarrow> ustring" where
  "slice_last s n = (if n = 0 then s else drop (length s - n) s)"

text \<open>The test of the \<open>if\<close> in the loop, without its comparison with the best word so far.\<close>

definition head_matches :: "ustring \<Rightarrow> ustring \<Rightarrow> bool" where
  "head_matches segment_head repeater_head \<longleftrightarrow>
     length segment_head \<ge> length repeater_head \<and>
     slice_last segment_head (length repeater_head) = repeater_head"

text \<open>
  The loop over \<open>repeaters\<close>, with the pair \<open>(longest_word, repetition)\<close> as its state.
  \<open>repeater[-1]\<close> raises on an empty word.
\<close>

fun find_longest_loop ::
  "ustring \<Rightarrow> ustring list \<Rightarrow> ustring \<times> nat \<Rightarrow> error + ustring \<times> nat" where
  "find_longest_loop segment_head [] best = Inr best"
| "find_longest_loop segment_head (repeater # rest) (longest_word, repetition) =
     (if repeater = [] then Inl IndexError
      else
        let repeater_head = get_repitition_head repeater (last repeater) in
        if head_matches segment_head repeater_head \<and> length repeater > length longest_word
        then find_longest_loop segment_head rest
               (repeater, length repeater - length repeater_head)
        else find_longest_loop segment_head rest (longest_word, repetition))"

definition find_longest_consonant_repeaters_match ::
  "ustring \<Rightarrow> ustring list \<Rightarrow> error + ustring \<times> nat" where
  "find_longest_consonant_repeaters_match segment_head repeaters =
     find_longest_loop segment_head repeaters ([], 0)"

subsection \<open>\<open>_remove_repeat_consonants_from_segment\<close>\<close>

definition is_target :: "ustring \<Rightarrow> ustring \<Rightarrow> bool" where
  "is_target consonants segment \<longleftrightarrow>
     length segment > 1 \<and> last segment \<in> set consonants \<and>
     last segment = segment ! (length segment - 2)"

definition remove_repeat_consonants_from_segment ::
  "ustring \<Rightarrow> repeaters_index \<Rightarrow> ustring \<Rightarrow> error + ustring" where
  "remove_repeat_consonants_from_segment consonants consonants_repeaters segment =
     (if \<not> is_target consonants segment then Inr segment
      else
        let dup = last segment in
        case consonants_repeaters dup of
          None \<Rightarrow> Inl KeyError
        | Some repeaters \<Rightarrow>
            let segment_head = get_repitition_head segment dup in
            (case find_longest_consonant_repeaters_match segment_head repeaters of
               Inl e \<Rightarrow> Inl e
             | Inr (longest_word, repetition) \<Rightarrow>
                 if length longest_word > 0
                 then Inr (segment_head @ replicate repetition dup)
                 else Inr (segment_head @ replicate 1 dup)))"

subsection \<open>\<open>remove_repeat_consonants\<close>\<close>

text \<open>\<open>text.split(sep)\<close> and \<open>sep.join(parts)\<close> for a one-character separator.\<close>

fun split :: "uchar \<Rightarrow> ustring \<Rightarrow> ustring list" where
  "split sep [] = [[]]"
| "split sep (c # cs) =
     (if c = sep then [] # split sep cs
      else (c # hd (split sep cs)) # tl (split sep cs))"

fun join :: "uchar \<Rightarrow> ustring list \<Rightarrow> ustring" where
  "join sep [] = []"
| "join sep [part] = part"
| "join sep (part # rest) = part @ sep # join sep rest"

definition space :: uchar where "space = 0x20"
definition newline :: uchar where "newline = 0x0A"

text \<open>The inner loop, which rewrites the segments of one line in place.\<close>

fun resolve_segments ::
  "ustring \<Rightarrow> repeaters_index \<Rightarrow> ustring list \<Rightarrow> error + ustring list" where
  "resolve_segments consonants idx [] = Inr []"
| "resolve_segments consonants idx (segment # rest) =
     (case remove_repeat_consonants_from_segment consonants idx segment of
        Inl e \<Rightarrow> Inl e
      | Inr s \<Rightarrow>
          (case resolve_segments consonants idx rest of
             Inl e \<Rightarrow> Inl e
           | Inr ss \<Rightarrow> Inr (s # ss)))"

text \<open>The outer loop, over the lines of the text.\<close>

fun resolve_lines ::
  "ustring \<Rightarrow> repeaters_index \<Rightarrow> ustring list \<Rightarrow> error + ustring list" where
  "resolve_lines consonants idx [] = Inr []"
| "resolve_lines consonants idx (line # rest) =
     (case resolve_segments consonants idx (split space line) of
        Inl e \<Rightarrow> Inl e
      | Inr segments \<Rightarrow>
          (case resolve_lines consonants idx rest of
             Inl e \<Rightarrow> Inl e
           | Inr modified_lines \<Rightarrow> Inr (join space segments # modified_lines)))"

text \<open>
  The function reads and, when \<open>dictionary_updated\<close> is set, rewrites the module-level
  index; the model takes the index and returns the text together with the index it leaves
  behind. (\<open>dictionary=None\<close> selects the package's word list, which is one more
  dictionary.)
\<close>

definition remove_repeat_consonants ::
  "ustring \<Rightarrow> ustring \<Rightarrow> ustring list \<Rightarrow> bool \<Rightarrow> repeaters_index \<Rightarrow>
     error + ustring \<times> repeaters_index" where
  "remove_repeat_consonants consonants text dictionary dictionary_updated idx =
     (case (if dictionary_updated then update_consonant_repeaters consonants dictionary idx
            else Inr idx) of
        Inl e \<Rightarrow> Inl e
      | Inr idx' \<Rightarrow>
          (case resolve_lines consonants idx' (split newline text) of
             Inl e \<Rightarrow> Inl e
           | Inr modified_lines \<Rightarrow> Inr (join newline modified_lines, idx')))"

subsection \<open>Notions used to state the properties of the resolver\<close>

text \<open>The length of the run of the last character at the end of a string.\<close>

definition trailing_run :: "ustring \<Rightarrow> nat" where
  "trailing_run s = length s - length (get_repitition_head s (last s))"

text \<open>\<open>s.endswith(t)\<close>: the suffix match of the specification of the resolver.\<close>

definition ends_with :: "ustring \<Rightarrow> ustring \<Rightarrow> bool" where
  "ends_with s t \<longleftrightarrow> length t \<le> length s \<and> drop (length s - length t) s = t"

text \<open>
  What \<open>_update_consonant_repeaters\<close> establishes: every consonant is a key, and the words
  under a consonant end with that consonant doubled.
\<close>

definition index_ok :: "ustring \<Rightarrow> repeaters_index \<Rightarrow> bool" where
  "index_ok consonants idx \<longleftrightarrow>
     (\<forall>c\<in>set consonants. \<exists>ws. idx c = Some ws \<and>
        (\<forall>w\<in>set ws. is_consonant_repeater consonants w \<and> last w = c))"

section \<open>The repetition-mark expander\<close>

text \<open>
  \<open>maiyamok\<close> takes a list of tokens (a string is first cut into tokens by
  \<open>word_tokenize\<close>, which is outside this module, and then treated the same way).
\<close>

text \<open>The repetition mark MAI YAMOK, U+0E46.\<close>

definition mark :: uchar where "mark = 0x0E46"

text \<open>
  \<open>str.isspace()\<close>: the string is not empty and all its characters are whitespace, which
  for Python are the characters of bidirectional type WS, B or S or of category Zs.
\<close>

definition py_whitespace :: "uchar \<Rightarrow> bool" where
  "py_whitespace c \<longleftrightarrow>
     (0x09 \<le> c \<and> c \<le> 0x0D) \<or> (0x1C \<le> c \<and> c \<le> 0x20) \<or> c = 0x85 \<or> c = 0xA0 \<or>
     c = 0x1680 \<or> (0x2000 \<le> c \<and> c \<le> 0x200A) \<or> c = 0x2028 \<or> c = 0x2029 \<or>
     c = 0x202F \<or> c = 0x205F \<or> c = 0x3000"

definition isspace :: "ustring \<Rightarrow> bool" where
  "isspace text \<longleftrightarrow> text \<noteq> [] \<and> list_all py_whitespace text"

text \<open>\<open>sub in text\<close> and \<open>text.replace(old, new)\<close>.\<close>

fun contains :: "ustring \<Rightarrow> ustring \<Rightarrow> bool" where
  "contains sub [] \<longleftrightarrow> sub = []"
| "contains sub (c # cs) \<longleftrightarrow> take (length sub) (c # cs) = sub \<or> contains sub cs"

function replace :: "ustring \<Rightarrow> ustring \<Rightarrow> ustring \<Rightarrow> ustring" where
  "replace [] new text = new @ concat (map (\<lambda>c. c # new) text)"
| "replace (a # old) new [] = []"
| "replace (a # old) new (c # cs) =
     (if take (length (a # old)) (c # cs) = a # old
      then new @ replace (a # old) new (drop (length old) cs)
      else c # replace (a # old) new cs)"
  by pat_completeness auto
termination
  by (relation "measure (\<lambda>(old, new, text). length text)") auto

text \<open>\<open>xs[k]\<close>, where a negative \<open>k\<close> counts from the end.\<close>

definition py_index :: "'a list \<Rightarrow> int \<Rightarrow> error + 'a" where
  "py_index xs k =
     (let n = int (length xs); j = (if k < 0 then k + n else k)
      in if 0 \<le> j \<and> j < n then Inr (xs ! nat j) else Inl IndexError)"

text \<open>
  The test \<open>text.isspace() and "\<dots>" in sent[j + 1]\<close> that opens the body of the loop;
  \<open>rest\<close> are the tokens after \<open>text\<close>, so that \<open>sent[j + 1]\<close> is its first element
  and raises when there is none.
\<close>

definition skipped :: "ustring \<Rightarrow> ustring list \<Rightarrow> error + bool" where
  "skipped text rest =
     (if isspace text then
        (case rest of [] \<Rightarrow> Inl IndexError | nxt # _ \<Rightarrow> Inr (contains [mark] nxt))
      else Inr False)"

text \<open>The rest of the body, on the state \<open>(_list_word, i)\<close>.\<close>

definition maiyamok_step ::
  "ustring \<Rightarrow> ustring list \<Rightarrow> int \<Rightarrow> error + ustring list \<times> int" where
  "maiyamok_step text0 list_word i =
     (let text = (if contains [space, mark] text0 then replace [space, mark] [mark] text0
                  else text0)
      in if [mark] = text then
           (case py_index list_word (i - 1) of
              Inl e \<Rightarrow> Inl e
            | Inr prev \<Rightarrow> Inr (list_word @ [prev], i + 1))
         else if contains [mark] text then
           (let stripped = replace [mark] [] text
            in Inr ((list_word @ [stripped]) @ [stripped], (i + 1) + 1))
         else Inr (list_word @ [text], i + 1))"

fun maiyamok_loop :: "ustring list \<Rightarrow> ustring list \<Rightarrow> int \<Rightarrow> error + ustring list" where
  "maiyamok_loop [] list_word i = Inr list_word"
| "maiyamok_loop (text # rest) list_word i =
     (case skipped text rest of
        Inl e \<Rightarrow> Inl e
      | Inr True \<Rightarrow> maiyamok_loop rest list_word i
      | Inr False \<Rightarrow>
          (case maiyamok_step text list_word i of
             Inl e \<Rightarrow> Inl e
           | Inr (list_word', i') \<Rightarrow> maiyamok_loop rest list_word' i'))"

definition maiyamok :: "ustring list \<Rightarrow> error + ustring list" where
  "maiyamok sent = maiyamok_loop sent [] 0"

text \<open>
  The tokens that carry no mark and are not suppressed (a whitespace token is suppressed
  when the token after it contains the mark), in their order.
\<close>

fun unsuppressed_plain :: "ustring list \<Rightarrow> ustring list" where
  "unsuppressed_plain [] = []"
| "unsuppressed_plain (t # rest) =
     (if mark \<in> set t \<or> (isspace t \<and> (case rest of [] \<Rightarrow> False | nxt # _ \<Rightarrow> mark \<in> set nxt))
      then unsuppressed_plain rest else t # unsuppressed_plain rest)"

text \<open>
  \<^verbatim>\<open>if " \<dots>" in text: text = text.replace(" \<dots>", "\<dots>")\<close>, the second statement of the
  body of the loop (\<open>\<dots>\<close> is the mark): the token with every space fused before a mark
  dropped.
\<close>

definition fused_to_mark :: "ustring \<Rightarrow> ustring" where
  "fused_to_mark t = (if contains [space, mark] t then replace [space, mark] [mark] t else t)"

section \<open>The normalization pipeline\<close>

subsection \<open>Character classes\<close>

text \<open>
  The classes \<open>above_v\<close>, \<open>below_v\<close>, \<open>follow_v\<close>, \<open>lead_v\<close> and \<open>tonemarks\<close> come from
  the package root as well. The functions take them as a record; \<open>thai_classes\<close> below
  are the values for Thai. The module puts these strings between \<open>[\<close> and \<open>]\<close> in its
  regular expressions; the model reads such a class as membership, which is what the
  expression means when the strings hold no character that is special inside a class,
  as is the case for \<open>thai_classes\<close>.
\<close>

record char_classes =
  above_v :: ustring
  below_v :: ustring
  follow_v :: ustring
  lead_v :: ustring
  tonemarks :: ustring

text \<open>
  Modelled from the spec: the tone-mark, above-vowel, below-vowel, leading-vowel and
  following-vowel classes of the character-class tables, whose values are missing with
  the package root: the four tone marks U+0E48 to U+0E4B and the vowel signs of the Thai
  block of Unicode by their position. They are used at concrete inputs only.
\<close>

definition thai_classes :: char_classes where
  "thai_classes =
     \<lparr>above_v = [0x0E31, 0x0E34, 0x0E35, 0x0E36, 0x0E37, 0x0E4D, 0x0E47],
      below_v = [0x0E38, 0x0E39],
      follow_v = [0x0E30, 0x0E32, 0x0E33, 0x0E45],
      lead_v = [0x0E40, 0x0E41, 0x0E42, 0x0E43, 0x0E44],
      tonemarks = [0x0E48, 0x0E49, 0x0E4A, 0x0E4B]\<rparr>"

subsection \<open>\<open>remove_dangling\<close>\<close>

text \<open>
  \<open>_RE_REMOVE_DANGLINGS = re.compile(f"^[{_DANGLING_CHARS}]+")\<close>, compiled without
  \<open>re.MULTILINE\<close>: \<open>^\<close> matches at position 0 only, so \<open>sub("", text)\<close> has at most one
  match, the longest run of dangling characters that starts the text, and deletes it.
\<close>

definition dangling_chars :: "char_classes \<Rightarrow> ustring" where
  "dangling_chars cls =
     above_v cls @ below_v cls @ tonemarks cls @ [0x0E3A, 0x0E4C, 0x0E4D, 0x0E4E]"

definition remove_dangling :: "char_classes \<Rightarrow> ustring \<Rightarrow> ustring" where
  "remove_dangling cls text = dropWhile (\<lambda>c. c \<in> set (dangling_chars cls)) text"

subsection \<open>\<open>remove_dup_spaces\<close>\<close>

text \<open>
  \<^verbatim>\<open>while "  " in text:
      text = text.replace("  ", " ")\<close>
\<close>

function dup_spaces_loop :: "ustring \<Rightarrow> ustring" where
  "dup_spaces_loop text =
     (if contains [space, space] text then dup_spaces_loop (replace [space, space] [space] text)
      else text)"
  by pat_completeness auto
termination
proof (relation "measure length")
  show "wf (measure length)" by simp
next
  fix t :: ustring
  assume c: "contains [space, space] t"
  have le: "length (replace [space, space] [space] u) \<le> length u" for u
    by (induction "[space, space]" "[space]" u rule: replace.induct) auto
  have "contains [space, space] u \<Longrightarrow> length (replace [space, space] [space] u) < length u" for u
  proof (induction u)
    case Nil
    then show ?case by simp
  next
    case (Cons x xs)
    show ?case
    proof (cases "take 2 (x # xs) = [space, space]")
      case True
      then obtain ys where "xs = space # ys" "x = space" by (cases xs) auto
      with le [of ys] show ?thesis by simp
    next
      case False
      with Cons show ?thesis by (auto simp: numeral_2_eq_2)
    qed
  qed
  from this [OF c] show "(replace [space, space] [space] t, t) \<in> measure length" by simp
qed

declare dup_spaces_loop.simps [simp del]

text \<open>
  \<open>_RE_REMOVE_NEWLINES.sub("\n", text)\<close> with the pattern \<open>[ \n]*\n[ \n]*\<close>. A match can
  start at a position only if the run of spaces and newlines that starts there contains a
  newline, and it then covers that whole run (both stars are greedy). If the run holds no
  newline there is no match at this position, nor at any later position of the run, and
  the characters are copied.
\<close>

definition sp_or_nl :: "uchar \<Rightarrow> bool" where
  "sp_or_nl c \<longleftrightarrow> c = space \<or> c = newline"

function sub_newlines :: "ustring \<Rightarrow> ustring" where
  "sub_newlines [] = []"
| "sub_newlines (c # cs) =
     (if newline \<in> set (takeWhile sp_or_nl (c # cs))
      then newline # sub_newlines (dropWhile sp_or_nl (c # cs))
      else c # sub_newlines cs)"
  by pat_completeness auto
termination
proof (relation "measure length")
  show "wf (measure length)" by simp
next
  fix c :: uchar and cs :: ustring
  assume "newline \<in> set (takeWhile sp_or_nl (c # cs))"
  then have "sp_or_nl c" by (cases "sp_or_nl c") auto
  then have "length (dropWhile sp_or_nl (c # cs)) \<le> length cs"
    by (simp add: length_dropWhile_le)
  then show "(dropWhile sp_or_nl (c # cs), c # cs) \<in> measure length" by simp
next
  fix c :: uchar and cs :: ustring
  show "(cs, c # cs) \<in> measure length" by simp
qed

text \<open>
  \<open>text.strip()\<close> removes the whitespace at both ends; whitespace is what \<open>isspace\<close>
  accepts.
\<close>

definition strip :: "ustring \<Rightarrow> ustring" where
  "strip text = rev (dropWhile py_whitespace (rev (dropWhile py_whitespace text)))"

definition remove_dup_spaces :: "ustring \<Rightarrow> ustring" where
  "remove_dup_spaces text = strip (sub_newlines (dup_spaces_loop text))"

subsection \<open>\<open>remove_zw\<close>\<close>

text \<open>
  \<^verbatim>\<open>for ch in _ZERO_WIDTH_CHARS:
      while ch in text:
          text = text.replace(ch, "")\<close>
\<close>

function remove_char_loop :: "uchar \<Rightarrow> ustring \<Rightarrow> ustring" where
  "remove_char_loop ch text =
     (if contains [ch] text then remove_char_loop ch (replace [ch] [] text) else text)"
  by pat_completeness auto
termination
proof (relation "measure (\<lambda>(ch, t). length t)")
  show "wf (measure (\<lambda>(ch, t). length t))" by simp
next
  fix ch :: uchar and t :: ustring
  assume c: "contains [ch] t"
  have le: "length (replace [ch] [] u) \<le> length u" for u
    by (induction u) auto
  have "contains [ch] u \<Longrightarrow> length (replace [ch] [] u) < length u" for u
  proof (induction u)
    case Nil
    then show ?case by simp
  next
    case (Cons x xs)
    with le [of xs] show ?case by (auto simp: less_Suc_eq_le)
  qed
  from this [OF c] show "((ch, replace [ch] [] t), ch, t) \<in> measure (\<lambda>(ch, t). length t)" by simp
qed

declare remove_char_loop.simps [simp del]

definition zero_width_chars :: ustring where
  "zero_width_chars = [0x200B, 0x200C]"

definition remove_zw :: "ustring \<Rightarrow> ustring" where
  "remove_zw text = fold remove_char_loop zero_width_chars text"

subsection \<open>\<open>reorder_vowels\<close>\<close>

text \<open>
  \<open>re.sub\<close> replaces the leftmost match, then the leftmost match after it, and so on; each
  rule of \<open>_REORDER_PAIRS\<close> is modelled by a scan from left to right.

  \<open>([P]+)([Q]+)\<close> replaced by \<open>\2\1\<close>, for disjoint classes \<open>P\<close> and \<open>Q\<close>: a match
  starts at a character of \<open>P\<close>, takes the run of \<open>P\<close> that starts there and the run of
  \<open>Q\<close> after it, which must not be empty. Where the run of \<open>P\<close> is not followed by a
  character of \<open>Q\<close>, no position inside the run starts a match either.
\<close>

function swap_groups :: "(uchar \<Rightarrow> bool) \<Rightarrow> (uchar \<Rightarrow> bool) \<Rightarrow> ustring \<Rightarrow> ustring" where
  "swap_groups P Q [] = []"
| "swap_groups P Q (c # cs) =
     (if P c \<and> takeWhile Q (dropWhile P cs) \<noteq> []
      then takeWhile Q (dropWhile P cs) @ takeWhile P (c # cs) @
           swap_groups P Q (dropWhile Q (dropWhile P cs))
      else c # swap_groups P Q cs)"
  by pat_completeness auto
termination
proof (relation "measure (\<lambda>(P, Q, t). length t)")
  show "wf (measure (\<lambda>(P, Q, t). length t))" by simp
next
  fix P Q :: "uchar \<Rightarrow> bool" and c :: uchar and cs :: ustring
  have "length (dropWhile Q (dropWhile P cs)) \<le> length cs"
    by (meson length_dropWhile_le order_trans)
  then show "((P, Q, dropWhile Q (dropWhile P cs)), P, Q, c # cs) \<in> measure (\<lambda>(P, Q, t). length t)"
    by simp
next
  fix P Q :: "uchar \<Rightarrow> bool" and c :: uchar and cs :: ustring
  show "((P, Q, cs), P, Q, c # cs) \<in> measure (\<lambda>(P, Q, t). length t)" by simp
qed

text \<open>
  \<open>\u0e4d([T]*)\u0e32\<close> replaced by \<open>\1\u0e33\<close> (\<open>T\<close> the tone marks, U+0E32 not among
  them): Nikhahit, the run of tone marks after it, and Sara Aa.
\<close>

function nikhahit_sara_aa :: "(uchar \<Rightarrow> bool) \<Rightarrow> ustring \<Rightarrow> ustring" where
  "nikhahit_sara_aa T [] = []"
| "nikhahit_sara_aa T (c # cs) =
     (if c = 0x0E4D \<and> take 1 (dropWhile T cs) = [0x0E32]
      then takeWhile T cs @ 0x0E33 # nikhahit_sara_aa T (drop 1 (dropWhile T cs))
      else c # nikhahit_sara_aa T cs)"
  by pat_completeness auto
termination
proof (relation "measure (\<lambda>(T, t). length t)")
  show "wf (measure (\<lambda>(T, t). length t))" by simp
next
  fix T :: "uchar \<Rightarrow> bool" and c :: uchar and cs :: ustring
  have "length (drop 1 (dropWhile T cs)) \<le> length cs"
    using length_dropWhile_le [of T cs] by simp
  then show "((T, drop 1 (dropWhile T cs)), T, c # cs) \<in> measure (\<lambda>(T, t). length t)" by simp
next
  fix T :: "uchar \<Rightarrow> bool" and c :: uchar and cs :: ustring
  show "((T, cs), T, c # cs) \<in> measure (\<lambda>(T, t). length t)" by simp
qed

text \<open>
  \<open>([^\u0e24\u0e26])\u0e45\<close> replaced by \<open>\1\u0e32\<close>: any character but U+0E24 and
  U+0E26, followed by Lakkhangyao.
\<close>

fun lakkhangyao :: "ustring \<Rightarrow> ustring" where
  "lakkhangyao (c # d # rest) =
     (if c \<noteq> 0x0E24 \<and> c \<noteq> 0x0E26 \<and> d = 0x0E45 then c # 0x0E32 # lakkhangyao rest
      else c # lakkhangyao (d # rest))"
| "lakkhangyao cs = cs"

text \<open>
  The five rules in their order; the first has the literal pattern U+0E40 U+0E40, for
  which \<open>re.sub\<close> is \<open>str.replace\<close>.
\<close>

definition reorder_pairs :: "char_classes \<Rightarrow> (ustring \<Rightarrow> ustring) list" where
  "reorder_pairs cls =
     [replace [0x0E40, 0x0E40] [0x0E41],
      swap_groups (\<lambda>c. c \<in> set (tonemarks cls @ [0x0E4C])) (\<lambda>c. c \<in> set (above_v cls @ below_v cls)),
      nikhahit_sara_aa (\<lambda>c. c \<in> set (tonemarks cls)),
      swap_groups (\<lambda>c. c \<in> set (follow_v cls)) (\<lambda>c. c \<in> set (tonemarks cls)),
      lakkhangyao]"

definition reorder_vowels :: "char_classes \<Rightarrow> ustring \<Rightarrow> ustring" where
  "reorder_vowels cls text = fold (\<lambda>pair t. pair t) (reorder_pairs cls) text"

subsection \<open>\<open>remove_repeat_vowels\<close>\<close>

text \<open>
  \<open>_NOREPEAT_PAIRS\<close> has, for every character \<open>ch\<close> of \<open>_NOREPEAT_CHARS\<close>, the pattern
  \<open>(ch[ ]*)+ch\<close> and the replacement \<open>ch\<close>. A match starts at an occurrence of \<open>ch\<close>
  that is followed, within the run of \<open>ch\<close> and spaces after it, by another \<open>ch\<close>; it
  ends at the last \<open>ch\<close> of that run (the spaces after it are not part of the match).
\<close>

definition norepeat_chars :: "char_classes \<Rightarrow> ustring" where
  "norepeat_chars cls =
     follow_v cls @ lead_v cls @ above_v cls @ below_v cls @ [0x0E3A, 0x0E4C, 0x0E4D, 0x0E4E]"

function norepeat :: "uchar \<Rightarrow> ustring \<Rightarrow> ustring" where
  "norepeat ch [] = []"
| "norepeat ch (c # cs) =
     (let run = takeWhile (\<lambda>x. x = ch \<or> x = space) cs in
      if c = ch \<and> ch \<in> set run
      then ch # norepeat ch (drop (length run - length (takeWhile (\<lambda>x. x \<noteq> ch) (rev run))) cs)
      else c # norepeat ch cs)"
  by pat_completeness auto
termination
  by (relation "measure (\<lambda>(ch, t). length t)") auto

text \<open>
  \<open>re.compile(f"[{cls}]+").sub(repl, text)\<close> for a function \<open>repl\<close> of the matched text:
  every maximal run of characters of the class is replaced by \<open>repl\<close> of the run.
  \<open>_last_char\<close> returns \<open>matchobj.group(0)[-1]\<close>.
\<close>

function sub_class_runs :: "(uchar \<Rightarrow> bool) \<Rightarrow> (ustring \<Rightarrow> ustring) \<Rightarrow> ustring \<Rightarrow> ustring" where
  "sub_class_runs P repl [] = []"
| "sub_class_runs P repl (c # cs) =
     (if P c then repl (takeWhile P (c # cs)) @ sub_class_runs P repl (dropWhile P cs)
      else c # sub_class_runs P repl cs)"
  by pat_completeness auto
termination
proof (relation "measure (\<lambda>(P, repl, t). length t)")
  show "wf (measure (\<lambda>(P, repl, t). length t))" by simp
next
  fix P :: "uchar \<Rightarrow> bool" and repl :: "ustring \<Rightarrow> ustring" and c :: uchar and cs :: ustring
  show "((P, repl, dropWhile P cs), P, repl, c # cs) \<in> measure (\<lambda>(P, repl, t). length t)"
    by (simp add: length_dropWhile_le less_Suc_eq_le)
next
  fix P :: "uchar \<Rightarrow> bool" and repl :: "ustring \<Rightarrow> ustring" and c :: uchar and cs :: ustring
  show "((P, repl, cs), P, repl, c # cs) \<in> measure (\<lambda>(P, repl, t). length t)" by simp
qed

definition last_char :: "ustring \<Rightarrow> ustring" where
  "last_char matched = [last matched]"

definition collapse_tonemarks :: "char_classes \<Rightarrow> ustring \<Rightarrow> ustring" where
  "collapse_tonemarks cls text = sub_class_runs (\<lambda>c. c \<in> set (tonemarks cls)) last_char text"

definition remove_repeat_vowels :: "char_classes \<Rightarrow> ustring \<Rightarrow> ustring" where
  "remove_repeat_vowels cls text =
     collapse_tonemarks cls (fold norepeat (norepeat_chars cls) (reorder_vowels cls text))"

subsection \<open>\<open>normalize\<close>\<close>

definition normalize :: "char_classes \<Rightarrow> ustring \<Rightarrow> ustring" where
  "normalize cls text = remove_dangling cls (remove_repeat_vowels cls (remove_dup_spaces (remove_zw text)))"

subsection \<open>Notions used to state the properties of the pipeline\<close>

text \<open>
  What the loop of \<open>remove_dup_spaces\<close> computes (every run of spaces becomes one space),
  and the replacement that \<open>_RE_REMOVE_NEWLINES\<close> makes seen as a replacement of every run
  of spaces and newlines, both in terms of \<open>sub_class_runs\<close>.
\<close>

definition squeeze :: "ustring \<Rightarrow> ustring" where
  "squeeze text = sub_class_runs (\<lambda>c. c = space) (\<lambda>run. [space]) text"

definition newline_if_any :: "ustring \<Rightarrow> ustring" where
  "newline_if_any run = (if newline \<in> set run then [newline] else run)"

text \<open>
  The value of \<open>text\<close> in \<open>remove_repeat_vowels\<close> when the loop over \<open>_NOREPEAT_PAIRS\<close>
  has run, which is what the collapse of tone marks is applied to.
\<close>

definition duplicate_marks_collapsed :: "char_classes \<Rightarrow> ustring \<Rightarrow> ustring" where
  "duplicate_marks_collapsed cls text = fold norepeat (norepeat_chars cls) (reorder_vowels cls text)"

text \<open>
  The characters that the rules of \<open>remove_repeat_vowels\<close> and \<open>remove_dangling\<close> look
  for: the vowel and sign classes, the tone marks, and the two characters that the
  rules of \<open>_REORDER_PAIRS\<close> name literally besides them.
\<close>

definition vowel_and_mark_chars :: "char_classes \<Rightarrow> ustring" where
  "vowel_and_mark_chars cls = norepeat_chars cls @ tonemarks cls @ [0x0E40, 0x0E45]"

text \<open>
  The shape of a text after \<open>remove_zw\<close> and \<open>remove_dup_spaces\<close>, which the later steps
  of \<open>normalize\<close> keep: no zero-width character, no two adjacent characters among space
  and newline, and no white space at the end.
\<close>

definition settled :: "ustring \<Rightarrow> bool" where
  "settled t \<longleftrightarrow>
     0x200B \<notin> set t \<and> 0x200C \<notin> set t \<and>
     successively (\<lambda>x y. \<not> (sp_or_nl x \<and> sp_or_nl y)) t \<and>
     (t = [] \<or> \<not> py_whitespace (last t))"

text \<open>
  What the matches of the rewriting rules of \<open>remove_repeat_vowels\<close> have in common, for
  a match at the head of \<open>t\<close> that is replaced by \<open>out\<close> and followed by \<open>rest\<close>: the
  matched text is a non-empty prefix of \<open>t\<close>, at least as long as its replacement; the
  replacement is not empty, does not end with white space, has no two adjacent characters
  among space and newline, starts with a space or a newline only where \<open>t\<close> does, and has
  no zero-width character unless \<open>t\<close> has one.
\<close>

definition tame_match :: "ustring \<Rightarrow> ustring \<Rightarrow> ustring \<Rightarrow> bool" where
  "tame_match t out rest \<longleftrightarrow>
     (\<exists>pre. pre \<noteq> [] \<and> t = pre @ rest \<and> length out \<le> length pre) \<and>
     out \<noteq> [] \<and>
     successively (\<lambda>x y. \<not> (sp_or_nl x \<and> sp_or_nl y)) out \<and>
     (sp_or_nl (hd out) \<longrightarrow> hd out = hd t) \<and>
     \<not> py_whitespace (last out) \<and>
     (0x200B \<notin> set t \<and> 0x200C \<notin> set t \<longrightarrow> 0x200B \<notin> set out \<and> 0x200C \<notin> set out)"

section \<open>Properties of the repeat-consonant resolver\<close>

subsection \<open>Stripping the trailing run\<close>

lemma get_repitition_head_eq:
  "get_repitition_head t d = rev (dropWhile (\<lambda>c. c = d) (rev t))"
proof (induction t d rule: get_repitition_head.induct)
  case (1 head dup)
  show ?case
  proof (cases head rule: rev_cases)
    case Nil
    then show ?thesis by (subst get_repitition_head.simps) simp
  next
    case (snoc ys y)
    with 1 show ?thesis by (subst get_repitition_head.simps) simp
  qed
qed

lemma get_repitition_head_length: "length (get_repitition_head t d) \<le> length t"
  by (metis get_repitition_head_eq length_dropWhile_le length_rev)

lemma get_repitition_head_last_length:
  "t \<noteq> [] \<Longrightarrow> length (get_repitition_head t (last t)) < length t"
proof -
  assume "t \<noteq> []"
  then obtain xs x where t: "t = xs @ [x]" by (metis rev_exhaust)
  have "length (dropWhile (\<lambda>c. c = x) (rev xs)) \<le> length xs"
    by (metis length_dropWhile_le length_rev)
  then show ?thesis by (simp add: t get_repitition_head_eq)
qed

lemma trailing_run_pos: "s \<noteq> [] \<Longrightarrow> 1 \<le> trailing_run s"
  using get_repitition_head_last_length [of s] by (simp add: trailing_run_def)

lemma find_longest_loop_returns:
  "\<forall>r\<in>set repeaters. r \<noteq> [] \<Longrightarrow> \<exists>res. find_longest_loop h repeaters best = Inr res"
proof (induction repeaters arbitrary: best)
  case Nil
  then show ?case by simp
next
  case (Cons r rest)
  obtain lw rep where b: "best = (lw, rep)" by (cases best)
  from Cons show ?case by (simp add: b Let_def)
qed

lemma find_longest_loop_result:
  "find_longest_loop h repeaters (lw, rep) = Inr (w, n) \<Longrightarrow> w \<noteq> [] \<Longrightarrow>
   (lw \<noteq> [] \<longrightarrow> rep = trailing_run lw) \<Longrightarrow>
   n = trailing_run w \<and> (w \<in> set repeaters \<or> w = lw)"
proof (induction repeaters arbitrary: lw rep)
  case Nil
  then show ?case by simp
next
  case (Cons r rest)
  from Cons.prems(1) have ne: "r \<noteq> []" by (auto split: if_splits)
  show ?case
  proof (cases "head_matches h (get_repitition_head r (last r)) \<and> length r > length lw")
    case True
    with Cons.prems ne have
      "find_longest_loop h rest (r, trailing_run r) = Inr (w, n)"
      by (simp add: Let_def trailing_run_def)
    from Cons.IH [OF this Cons.prems(2)] show ?thesis by auto
  next
    case False
    with Cons.prems ne have "find_longest_loop h rest (lw, rep) = Inr (w, n)"
      by (auto simp: Let_def)
    from Cons.IH [OF this Cons.prems(2) Cons.prems(3)] show ?thesis by auto
  qed
qed

lemma find_longest_loop_no_match:
  "\<forall>r\<in>set repeaters. r \<noteq> [] \<and> \<not> head_matches h (get_repitition_head r (last r)) \<Longrightarrow>
   find_longest_loop h repeaters best = Inr best"
proof (induction repeaters)
  case Nil
  then show ?case by simp
next
  case (Cons r rest)
  obtain lw rep where b: "best = (lw, rep)" by (cases best)
  from Cons show ?case by (simp add: b Let_def)
qed

lemma init_repeaters_apply:
  "init_repeaters consonants m c = (if c \<in> set consonants then Some [] else m c)"
  by (induction consonants arbitrary: m) auto

lemma register_repeaters_result:
  "\<forall>c\<in>set consonants. m c \<noteq> None \<Longrightarrow>
   register_repeaters consonants dictionary m =
     Inr (\<lambda>c. if c \<in> set consonants
               then map_option (\<lambda>ws. ws @ filter (\<lambda>w. is_consonant_repeater consonants w \<and> last w = c) dictionary) (m c)
               else m c)"
proof (induction dictionary arbitrary: m)
  case Nil
  then show ?case by (auto simp: option.map_ident fun_eq_iff)
next
  case (Cons word rest)
  show ?case
  proof (cases "is_consonant_repeater consonants word")
    case True
    then have mem: "last word \<in> set consonants"
      unfolding is_consonant_repeater_def by blast
    with Cons.prems obtain ws where ws: "m (last word) = Some ws" by auto
    let ?m' = "m(last word \<mapsto> ws @ [word])"
    have "\<forall>c\<in>set consonants. ?m' c \<noteq> None" using Cons.prems by simp
    then have ih: "register_repeaters consonants rest ?m' =
         Inr (\<lambda>c. if c \<in> set consonants
               then map_option (\<lambda>ws. ws @ filter (\<lambda>w. is_consonant_repeater consonants w \<and> last w = c) rest) (?m' c)
               else ?m' c)"
      by (rule Cons.IH)
    have "register_repeaters consonants (word # rest) m = register_repeaters consonants rest ?m'"
      using True ws by simp
    also note ih
    also have "(\<lambda>c. if c \<in> set consonants
               then map_option (\<lambda>ws. ws @ filter (\<lambda>w. is_consonant_repeater consonants w \<and> last w = c) rest) (?m' c)
               else ?m' c) =
       (\<lambda>c. if c \<in> set consonants
               then map_option (\<lambda>ws. ws @ filter (\<lambda>w. is_consonant_repeater consonants w \<and> last w = c) (word # rest)) (m c)
               else m c)"
      using True ws mem by (auto simp: fun_eq_iff)
    finally show ?thesis .
  next
    case False
    with Cons show ?thesis by (auto simp: fun_eq_iff)
  qed
qed

lemma update_consonant_repeaters_result:
  "update_consonant_repeaters consonants dictionary m =
     Inr (\<lambda>c. if c \<in> set consonants
               then Some (filter (\<lambda>w. is_consonant_repeater consonants w \<and> last w = c) dictionary)
               else m c)"
proof -
  have "\<forall>c\<in>set consonants. init_repeaters consonants m c \<noteq> None"
    by (simp add: init_repeaters_apply)
  then show ?thesis
    unfolding update_consonant_repeaters_def
    by (subst register_repeaters_result) (auto simp: init_repeaters_apply fun_eq_iff)
qed

lemma update_index_ok:
  "update_consonant_repeaters consonants dictionary m = Inr idx \<Longrightarrow> index_ok consonants idx"
  by (auto simp: update_consonant_repeaters_result index_ok_def)

lemma is_consonant_repeater_nonempty: "is_consonant_repeater consonants w \<Longrightarrow> w \<noteq> []"
  by (auto simp: is_consonant_repeater_def)

lemma segment_returns:
  assumes "index_ok consonants idx"
  shows "\<exists>s. remove_repeat_consonants_from_segment consonants idx segment = Inr s"
proof (cases "is_target consonants segment")
  case False
  then show ?thesis by (simp add: remove_repeat_consonants_from_segment_def)
next
  case True
  then have "last segment \<in> set consonants" unfolding is_target_def by blast
  with assms obtain ws where ws: "idx (last segment) = Some ws"
    and all: "\<forall>w\<in>set ws. is_consonant_repeater consonants w"
    by (auto simp: index_ok_def)
  from all have "\<forall>w\<in>set ws. w \<noteq> []" by (auto dest: is_consonant_repeater_nonempty)
  from find_longest_loop_returns [OF this]
  obtain res where "find_longest_consonant_repeaters_match
      (get_repitition_head segment (last segment)) ws = Inr res"
    unfolding find_longest_consonant_repeaters_match_def by blast
  with True ws show ?thesis
    by (cases res) (simp add: remove_repeat_consonants_from_segment_def Let_def)
qed

lemma resolve_segments_returns:
  "index_ok consonants idx \<Longrightarrow> \<exists>ss. resolve_segments consonants idx segments = Inr ss"
proof (induction segments)
  case Nil
  then show ?case by simp
next
  case (Cons s rest)
  from segment_returns [OF Cons.prems, of s] Cons.IH [OF Cons.prems]
  show ?case by auto
qed

lemma resolve_lines_returns:
  "index_ok consonants idx \<Longrightarrow> \<exists>ls. resolve_lines consonants idx lines = Inr ls"
proof (induction lines)
  case Nil
  then show ?case by simp
next
  case (Cons l rest)
  from resolve_segments_returns [OF Cons.prems, of "split space l"] Cons.IH [OF Cons.prems]
  show ?case by auto
qed

subsection \<open>The claims about the resolver\<close>

text \<open>
  C1, as the code has it. When the match search returns a word for the head of a target
  segment, the segment is rewritten to its head followed by \<open>repetition\<close> copies of the
  duplicated consonant, and \<open>repetition\<close> is at least 1, the word is one of the
  candidates, and \<open>repetition\<close> is the length of the trailing run of that word. The
  count is taken from the dictionary word alone: the run in the input segment is never
  measured, so the count is not bounded by it.
\<close>

theorem confirmed_repeat_count:
  assumes "is_target consonants segment"
      and "idx (last segment) = Some repeaters"
      and "find_longest_consonant_repeaters_match
             (get_repitition_head segment (last segment)) repeaters
           = Inr (longest_word, repetition)"
      and "longest_word \<noteq> []"
  shows "remove_repeat_consonants_from_segment consonants idx segment
           = Inr (get_repitition_head segment (last segment) @ replicate repetition (last segment))
         \<and> 1 \<le> repetition \<and> longest_word \<in> set repeaters
         \<and> repetition = trailing_run longest_word"
proof -
  from assms(3) have "find_longest_loop (get_repitition_head segment (last segment)) repeaters ([], 0)
      = Inr (longest_word, repetition)"
    by (simp add: find_longest_consonant_repeaters_match_def)
  from find_longest_loop_result [OF this assms(4)] assms(4)
  have r: "repetition = trailing_run longest_word" and m: "longest_word \<in> set repeaters"
    by auto
  from r trailing_run_pos [OF assms(4)] have "1 \<le> repetition" by simp
  moreover from assms have "remove_repeat_consonants_from_segment consonants idx segment
           = Inr (get_repitition_head segment (last segment) @ replicate repetition (last segment))"
    by (simp add: remove_repeat_consonants_from_segment_def Let_def)
  ultimately show ?thesis using r m by blast
qed

theorem confirmed_repeat_count_witness:
  "is_target thai_consonants [0x0E2D, 0x0E21, 0x0E21, 0x0E21, 0x0E21]
   \<and> (consonants_repeaters_initial(0x0E21 \<mapsto> [[0x0E2D, 0x0E21, 0x0E21]])) (last [0x0E2D, 0x0E21, 0x0E21, 0x0E21, 0x0E21])
        = Some [[0x0E2D, 0x0E21, 0x0E21]]
   \<and> remove_repeat_consonants_from_segment thai_consonants
        (consonants_repeaters_initial(0x0E21 \<mapsto> [[0x0E2D, 0x0E21, 0x0E21]]))
        [0x0E2D, 0x0E21, 0x0E21, 0x0E21, 0x0E21] = Inr [0x0E2D, 0x0E21, 0x0E21]
   \<and> trailing_run [0x0E2D, 0x0E21, 0x0E21] = 2"
proof -
  let ?seg = "[0x0E2D, 0x0E21, 0x0E21, 0x0E21, 0x0E21] :: ustring"
  let ?w = "[0x0E2D, 0x0E21, 0x0E21] :: ustring"
  let ?idx = "consonants_repeaters_initial(0x0E21 \<mapsto> [?w])"
  have h1: "is_target thai_consonants ?seg"
    by (simp add: is_target_def thai_consonants_def)
  have h2: "?idx (last ?seg) = Some [?w]" by simp
  have h3: "find_longest_consonant_repeaters_match (get_repitition_head ?seg (last ?seg)) [?w]
              = Inr (?w, 2)"
    by (simp add: find_longest_consonant_repeaters_match_def get_repitition_head_eq
        head_matches_def slice_last_def)
  have h4: "?w \<noteq> []" by simp
  from confirmed_repeat_count [of thai_consonants ?seg ?idx "[?w]" ?w 2, OF h1 h2 h3 h4]
  have "remove_repeat_consonants_from_segment thai_consonants ?idx ?seg = Inr ?w
        \<and> (2::nat) = trailing_run ?w"
    by (simp add: get_repitition_head_eq numeral_2_eq_2)
  with h1 h2 show ?thesis by simp
qed

text \<open>
  C1 as stated fails: the segment U+0E01 U+0E02 U+0E02 has a trailing run of 2, the
  dictionary word U+0E01 U+0E02 U+0E02 U+0E02 matches its head, the count returned is 3,
  and three consonants are written where the input had two.
\<close>

theorem repeat_count_exceeds_input_run:
  "find_longest_consonant_repeaters_match
     (get_repitition_head [0x0E01, 0x0E02, 0x0E02] 0x0E02) [[0x0E01, 0x0E02, 0x0E02, 0x0E02]]
     = Inr ([0x0E01, 0x0E02, 0x0E02, 0x0E02], 3)
   \<and> trailing_run [0x0E01, 0x0E02, 0x0E02] = 2
   \<and> \<not> (3 \<le> trailing_run [0x0E01, 0x0E02, 0x0E02])
   \<and> remove_repeat_consonants_from_segment thai_consonants
        (projr (update_consonant_repeaters thai_consonants [[0x0E01, 0x0E02, 0x0E02, 0x0E02]]
                  consonants_repeaters_initial))
        [0x0E01, 0x0E02, 0x0E02] = Inr [0x0E01, 0x0E02, 0x0E02, 0x0E02]"
  by (simp add: find_longest_consonant_repeaters_match_def get_repitition_head_eq
        head_matches_def slice_last_def trailing_run_def update_consonant_repeaters_result
        remove_repeat_consonants_from_segment_def is_target_def thai_consonants_def
        is_consonant_repeater_def numeral_3_eq_3)

lemma split_nonempty: "split sep t \<noteq> []"
  by (induction t) auto

lemma join_Cons: "rest \<noteq> [] \<Longrightarrow> join sep (part # rest) = part @ sep # join sep rest"
  by (cases rest) auto

lemma join_split: "join sep (split sep t) = t"
proof (induction t)
  case Nil
  then show ?case by simp
next
  case (Cons c cs)
  obtain h tl where s: "split sep cs = h # tl" using split_nonempty [of sep cs] by (cases "split sep cs") auto
  show ?case
  proof (cases "c = sep")
    case True
    with Cons show ?thesis by (simp add: join_Cons split_nonempty)
  next
    case False
    have "join sep ((c # h) # tl) = c # join sep (h # tl)" by (cases tl) auto
    with False Cons s show ?thesis by simp
  qed
qed

lemma resolve_segments_unchanged:
  "\<forall>segment\<in>set segments. \<not> is_target consonants segment \<Longrightarrow>
   resolve_segments consonants idx segments = Inr segments"
  by (induction segments) (auto simp: remove_repeat_consonants_from_segment_def)

lemma resolve_lines_unchanged:
  "\<forall>line\<in>set lines. \<forall>segment\<in>set (split space line). \<not> is_target consonants segment \<Longrightarrow>
   resolve_lines consonants idx lines = Inr lines"
  by (induction lines) (auto simp: resolve_segments_unchanged join_split)

text \<open>
  C2, as the code has it. \<open>remove_repeat_consonants\<close> returns normally, for every text
  and every dictionary, when \<open>dictionary_updated\<close> is true or the index it reads was built
  by an earlier update (the docstring asks for \<open>dictionary_updated=True\<close> on the first
  call); and a text none of whose segments ends in a doubled consonant, the empty text
  among them, is returned unchanged.
\<close>

theorem remove_repeat_consonants_returns:
  assumes "dictionary_updated \<or> (\<exists>d m. update_consonant_repeaters consonants d m = Inr idx)"
  shows "\<exists>modified idx'.
           remove_repeat_consonants consonants text dictionary dictionary_updated idx
             = Inr (modified, idx')
           \<and> ((\<forall>line\<in>set (split newline text). \<forall>segment\<in>set (split space line).
                  \<not> is_target consonants segment) \<longrightarrow> modified = text)"
proof -
  obtain idx' where upd: "(if dictionary_updated
         then update_consonant_repeaters consonants dictionary idx else Inr idx) = Inr idx'"
    by (cases dictionary_updated) (simp_all add: update_consonant_repeaters_result)
  have "index_ok consonants idx'"
  proof (cases dictionary_updated)
    case True
    with upd show ?thesis by (auto dest: update_index_ok)
  next
    case False
    with assms upd show ?thesis by (auto dest: update_index_ok)
  qed
  from resolve_lines_returns [OF this] obtain ls where
    ls: "resolve_lines consonants idx' (split newline text) = Inr ls" by blast
  with upd have r: "remove_repeat_consonants consonants text dictionary dictionary_updated idx
      = Inr (join newline ls, idx')"
    unfolding remove_repeat_consonants_def by simp
  have "join newline ls = text"
    if "\<forall>line\<in>set (split newline text). \<forall>segment\<in>set (split space line).
          \<not> is_target consonants segment"
  proof -
    from that have "resolve_lines consonants idx' (split newline text) = Inr (split newline text)"
      by (rule resolve_lines_unchanged)
    with ls have "ls = split newline text" by simp
    then show ?thesis by (simp add: join_split)
  qed
  with r show ?thesis by blast
qed

theorem remove_repeat_consonants_returns_witness:
  "\<exists>idx'. remove_repeat_consonants thai_consonants
         [0x0E01, 0x0E02, 0x20, 0x0E04, 0x0A, 0x0E07]
         [[0x0E2D, 0x0E21, 0x0E21]] True consonants_repeaters_initial
       = Inr ([0x0E01, 0x0E02, 0x20, 0x0E04, 0x0A, 0x0E07], idx')"
proof -
  let ?t = "[0x0E01, 0x0E02, 0x20, 0x0E04, 0x0A, 0x0E07] :: ustring"
  have h: "True \<or> (\<exists>d m. update_consonant_repeaters thai_consonants d m
                      = Inr consonants_repeaters_initial)" by simp
  have n: "\<forall>line\<in>set (split newline ?t). \<forall>segment\<in>set (split space line).
             \<not> is_target thai_consonants segment"
    by (simp add: newline_def space_def is_target_def)
  from remove_repeat_consonants_returns [OF h, of ?t "[[0x0E2D, 0x0E21, 0x0E21]]"] n
  show ?thesis by blast
qed

text \<open>
  C2 as stated fails: with \<open>dictionary_updated=False\<close> on the index as the module
  creates it (\<open>{}\<close>), the lookup \<open>consonants_repeaters[dup]\<close> raises KeyError for the
  text U+0E01 U+0E01; the lookup has no default.
\<close>

theorem remove_repeat_consonants_raises_on_fresh_index:
  "remove_repeat_consonants thai_consonants [0x0E01, 0x0E01] [] False
     consonants_repeaters_initial = Inl KeyError"
  by (simp add: remove_repeat_consonants_def newline_def space_def
        remove_repeat_consonants_from_segment_def is_target_def thai_consonants_def
        consonants_repeaters_initial_def)

text \<open>
  C3 at the input where the code leaves the claim. The candidate U+0E01 U+0E01 has the
  empty stripped head, and the head U+0E02 ends with the empty string; the claim has the
  candidate adopted. The code compares \<open>segment_head[-len(repeater_head):]\<close>, which for
  length 0 is \<open>segment_head[0:]\<close>, the whole head, with the empty string: the candidate
  is not adopted, the search returns \<open>("", 0)\<close>, and the segment U+0E02 U+0E01 U+0E01
  is cut to U+0E02 U+0E01 although it ends with a word of the dictionary.
\<close>

theorem empty_stripped_head_not_matched:
  "get_repitition_head [0x0E01, 0x0E01] (last [0x0E01, 0x0E01]) = []
   \<and> ends_with [0x0E02] (get_repitition_head [0x0E01, 0x0E01] (last [0x0E01, 0x0E01]))
   \<and> find_longest_consonant_repeaters_match [0x0E02] [[0x0E01, 0x0E01]] = Inr ([], 0)
   \<and> remove_repeat_consonants_from_segment thai_consonants
        (projr (update_consonant_repeaters thai_consonants [[0x0E01, 0x0E01]]
                  consonants_repeaters_initial))
        [0x0E02, 0x0E01, 0x0E01] = Inr [0x0E02, 0x0E01]"
  by (simp add: find_longest_consonant_repeaters_match_def get_repitition_head_eq
        head_matches_def slice_last_def ends_with_def update_consonant_repeaters_result
        remove_repeat_consonants_from_segment_def is_target_def thai_consonants_def
        is_consonant_repeater_def)

text \<open>
  C5. A target segment (longer than one character, ending in a consonant, its last two
  characters equal), resolved against an index built from a dictionary in which no
  candidate for the duplicated consonant matches the head of the segment, is rewritten to
  its head followed by the duplicated consonant once.
\<close>

theorem unmatched_segment_collapses_to_one:
  assumes "is_target consonants segment"
      and "update_consonant_repeaters consonants dictionary m = Inr idx"
      and "idx (last segment) = Some repeaters"
      and "\<forall>r\<in>set repeaters.
             \<not> head_matches (get_repitition_head segment (last segment))
                  (get_repitition_head r (last r))"
  shows "remove_repeat_consonants_from_segment consonants idx segment
           = Inr (get_repitition_head segment (last segment) @ [last segment])"
proof -
  from assms(1) have mem: "last segment \<in> set consonants" unfolding is_target_def by blast
  from update_index_ok [OF assms(2)] mem assms(3)
  have "\<forall>r\<in>set repeaters. is_consonant_repeater consonants r"
    by (auto simp: index_ok_def)
  then have "\<forall>r\<in>set repeaters. r \<noteq> []" by (auto dest: is_consonant_repeater_nonempty)
  with assms(4) have "\<forall>r\<in>set repeaters. r \<noteq> [] \<and>
      \<not> head_matches (get_repitition_head segment (last segment)) (get_repitition_head r (last r))"
    by blast
  from find_longest_loop_no_match [OF this]
  have "find_longest_consonant_repeaters_match (get_repitition_head segment (last segment)) repeaters
          = Inr ([], 0)"
    by (simp add: find_longest_consonant_repeaters_match_def)
  with assms(1,3) show ?thesis
    by (simp add: remove_repeat_consonants_from_segment_def Let_def)
qed

theorem unmatched_segment_collapses_to_one_witness:
  "is_target thai_consonants [0x0E01, 0x0E02, 0x0E02, 0x0E02]
   \<and> remove_repeat_consonants_from_segment thai_consonants
        (projr (update_consonant_repeaters thai_consonants [[0x0E04, 0x0E02, 0x0E02]]
                  consonants_repeaters_initial))
        [0x0E01, 0x0E02, 0x0E02, 0x0E02] = Inr [0x0E01, 0x0E02]"
proof -
  let ?seg = "[0x0E01, 0x0E02, 0x0E02, 0x0E02] :: ustring"
  let ?dict = "[[0x0E04, 0x0E02, 0x0E02]] :: ustring list"
  let ?idx = "projr (update_consonant_repeaters thai_consonants ?dict
                  consonants_repeaters_initial)"
  have h1: "is_target thai_consonants ?seg"
    by (simp add: is_target_def thai_consonants_def)
  have h2: "update_consonant_repeaters thai_consonants ?dict consonants_repeaters_initial
              = Inr ?idx"
    by (simp add: update_consonant_repeaters_result)
  have h3: "?idx (last ?seg) = Some ?dict"
    by (simp add: update_consonant_repeaters_result thai_consonants_def
          is_consonant_repeater_def)
  have h4: "\<forall>r\<in>set ?dict. \<not> head_matches (get_repitition_head ?seg (last ?seg))
               (get_repitition_head r (last r))"
    by (simp add: get_repitition_head_eq head_matches_def slice_last_def)
  from unmatched_segment_collapses_to_one [OF h1 h2 h3 h4]
  have "remove_repeat_consonants_from_segment thai_consonants ?idx ?seg = Inr [0x0E01, 0x0E02]"
    by (simp add: get_repitition_head_eq)
  with h1 show ?thesis by blast
qed

section \<open>Properties of the repetition-mark expander\<close>

lemma contains_single: "contains [c] text \<longleftrightarrow> c \<in> set text"
  by (induction "text") auto

lemma contains_pair_second: "contains [a, b] text \<Longrightarrow> b \<in> set text"
proof (induction "text")
  case Nil
  then show ?case by simp
next
  case (Cons c cs)
  then show ?case by (cases cs) auto
qed

lemma replace_single_empty: "replace [c] [] text = filter (\<lambda>x. x \<noteq> c) text"
  by (induction "text") auto

lemma mark_not_whitespace: "\<not> py_whitespace mark"
  by (simp add: py_whitespace_def mark_def)

lemma isspace_no_mark: "isspace text \<Longrightarrow> mark \<notin> set text"
  using mark_not_whitespace by (auto simp: isspace_def list_all_iff)

lemma skipped_error: "skipped text rest = Inl e \<Longrightarrow> e = IndexError"
  by (auto simp: skipped_def split: if_splits list.splits)

lemma py_index_error: "py_index xs k = Inl e \<Longrightarrow> e = IndexError"
  by (auto simp: py_index_def Let_def split: if_splits)

lemma maiyamok_step_error: "maiyamok_step text lw i = Inl e \<Longrightarrow> e = IndexError"
  by (auto simp: maiyamok_step_def Let_def split: if_splits sum.splits dest: py_index_error)

lemma maiyamok_loop_trailing_space:
  "sent \<noteq> [] \<Longrightarrow> isspace (last sent) \<Longrightarrow> maiyamok_loop sent lw i = Inl IndexError"
proof (induction sent arbitrary: lw i)
  case Nil
  then show ?case by simp
next
  case (Cons t rest)
  show ?case
  proof (cases rest)
    case Nil
    with Cons.prems show ?thesis by (simp add: skipped_def)
  next
    case (Cons nxt rest')
    then have ne: "rest \<noteq> []" and l: "isspace (last rest)" using Cons.prems by auto
    note ih = Cons.IH [OF ne l]
    show ?thesis
    proof (cases "skipped t rest")
      case (Inl e)
      then show ?thesis by (auto dest: skipped_error)
    next
      case (Inr b)
      show ?thesis
      proof (cases b)
        case True
        with Inr ih show ?thesis by simp
      next
        case False
        show ?thesis
        proof (cases "maiyamok_step t lw i")
          case (Inl e)
          with Inr False show ?thesis by (auto dest: maiyamok_step_error)
        next
          case (Inr p)
          with \<open>skipped t rest = Inr b\<close> False ih show ?thesis
            by (cases p) simp
        qed
      qed
    qed
  qed
qed

lemma maiyamok_two_tokens_and_mark:
  assumes "mark \<notin> set a" "mark \<notin> set b" "\<not> isspace b"
  shows "maiyamok [a, b, [mark]] = Inr [a, b, b]"
proof -
  have na: "\<not> contains [space, mark] a" "a \<noteq> [mark]" "\<not> contains [mark] a"
    using assms(1) by (auto dest: contains_pair_second simp: contains_single)
  have nb: "\<not> contains [space, mark] b" "b \<noteq> [mark]" "\<not> contains [mark] b"
    using assms(2) by (auto dest: contains_pair_second simp: contains_single)
  have sa: "skipped a [b, [mark]] = Inr False" using nb by (simp add: skipped_def)
  have sb: "skipped b [[mark]] = Inr False" using assms(3) by (simp add: skipped_def)
  have sm: "skipped [mark] [] = Inr False"
    using mark_not_whitespace by (simp add: skipped_def isspace_def)
  have ta: "maiyamok_step a [] 0 = Inr ([a], 1)" using na by (simp add: maiyamok_step_def)
  have tb: "maiyamok_step b [a] 1 = Inr ([a, b], 2)" using nb by (simp add: maiyamok_step_def)
  have tm: "maiyamok_step [mark] [a, b] 2 = Inr ([a, b, b], 3)"
    by (simp add: maiyamok_step_def py_index_def space_def mark_def)
  show ?thesis by (simp add: maiyamok_def sa sb sm ta tb tm)
qed

lemma fused_step: "maiyamok_step [space, mark] lw i = maiyamok_step [mark] lw i"
  by (simp add: maiyamok_step_def space_def mark_def)

lemma fused_skipped: "skipped [space, mark] rest = skipped [mark] rest"
  using mark_not_whitespace by (simp add: skipped_def isspace_def)

lemma fused_next: "skipped text ([space, mark] # rest) = skipped text ([mark] # rest)"
  by (simp add: skipped_def)

lemma fused_loop:
  "maiyamok_loop (before @ [space, mark] # after) lw i = maiyamok_loop (before @ [mark] # after) lw i"
proof (induction before arbitrary: lw i)
  case Nil
  show ?case by (simp only: append_Nil maiyamok_loop.simps fused_step fused_skipped)
next
  case (Cons t ts)
  have "skipped t (ts @ [space, mark] # after) = skipped t (ts @ [mark] # after)"
    by (cases ts) (simp_all add: fused_next, simp add: skipped_def)
  with Cons show ?case by (simp split: sum.splits bool.splits prod.splits)
qed

lemma text_with_mark:
  assumes "mark \<in> set t" "t \<noteq> [mark]" "\<not> contains [space, mark] t"
  shows "maiyamok_loop (t # rest) placed i =
         maiyamok_loop rest (placed @ [filter (\<lambda>c. c \<noteq> mark) t, filter (\<lambda>c. c \<noteq> mark) t]) (i + 2)"
proof -
  have "skipped t rest = Inr False" using assms(1) isspace_no_mark by (auto simp: skipped_def)
  moreover have "maiyamok_step t placed i =
     Inr (placed @ [filter (\<lambda>c. c \<noteq> mark) t, filter (\<lambda>c. c \<noteq> mark) t], i + 2)"
    using assms by (auto simp: maiyamok_step_def contains_single replace_single_empty Let_def)
  ultimately show ?thesis by simp
qed

lemma maiyamok_step_appends:
  "maiyamok_step t lw i = Inr (lw', i') \<Longrightarrow>
   \<exists>ys. lw' = lw @ ys \<and> (mark \<notin> set t \<longrightarrow> ys = [t])"
  by (auto simp: maiyamok_step_def Let_def contains_single
      split: if_splits sum.splits dest: contains_pair_second)

lemma maiyamok_loop_order:
  "maiyamok_loop sent lw i = Inr out \<Longrightarrow>
   \<exists>zs. out = lw @ zs \<and> subseq (unsuppressed_plain sent) zs"
proof (induction sent arbitrary: lw i)
  case Nil
  then show ?case by simp
next
  case (Cons t rest)
  from Cons.prems obtain b where sk: "skipped t rest = Inr b"
    by (cases "skipped t rest") auto
  show ?case
  proof (cases b)
    case True
    with sk have sup: "isspace t \<and> (case rest of [] \<Rightarrow> False | nxt # _ \<Rightarrow> mark \<in> set nxt)"
      by (auto simp: skipped_def contains_single split: if_splits list.splits)
    from True sk Cons.prems have "maiyamok_loop rest lw i = Inr out" by simp
    from Cons.IH [OF this] sup show ?thesis by auto
  next
    case False
    with sk have nsup: "\<not> (isspace t \<and> (case rest of [] \<Rightarrow> False | nxt # _ \<Rightarrow> mark \<in> set nxt))"
      by (auto simp: skipped_def contains_single split: if_splits list.splits)
    from False sk Cons.prems obtain lw' i' where st: "maiyamok_step t lw i = Inr (lw', i')"
      and lp: "maiyamok_loop rest lw' i' = Inr out"
      by (cases "maiyamok_step t lw i") auto
    from maiyamok_step_appends [OF st] obtain ys where
      ys: "lw' = lw @ ys" "mark \<notin> set t \<longrightarrow> ys = [t]" by blast
    from Cons.IH [OF lp] obtain zs where zs: "out = lw' @ zs" "subseq (unsuppressed_plain rest) zs"
      by blast
    show ?thesis
    proof (cases "mark \<in> set t")
      case True
      with zs ys show ?thesis by (auto intro: list_emb_prefix)
    next
      case False
      with zs ys nsup show ?thesis by auto
    qed
  qed
qed

lemma bare_mark_step:
  "maiyamok_loop ([mark] # rest) (placed @ [p]) (int (length (placed @ [p]))) =
   maiyamok_loop rest (placed @ [p, p]) (int (length (placed @ [p, p])))"
proof -
  have "skipped [mark] rest = Inr False"
    using mark_not_whitespace by (simp add: skipped_def isspace_def)
  moreover have "maiyamok_step [mark] (placed @ [p]) (int (length (placed @ [p]))) =
      Inr (placed @ [p, p], int (length (placed @ [p, p])))"
    by (simp add: maiyamok_step_def py_index_def space_def mark_def nth_append)
  ultimately show ?thesis by simp
qed

lemma replace_fused_keeps_mark:
  "mark \<in> set t \<Longrightarrow> mark \<in> set (replace [space, mark] [mark] t)"
proof (induction t rule: length_induct)
  case (1 t)
  show ?case
  proof (cases t)
    case Nil
    with "1.prems" show ?thesis by simp
  next
    case (Cons c cs)
    show ?thesis
    proof (cases "take 2 (c # cs) = [space, mark]")
      case True
      then have "replace [space, mark] [mark] (c # cs)
          = mark # replace [space, mark] [mark] (drop 1 cs)"
        by (simp add: numeral_2_eq_2)
      with Cons show ?thesis by simp
    next
      case False
      then have r: "replace [space, mark] [mark] (c # cs) = c # replace [space, mark] [mark] cs"
        by (auto simp: numeral_2_eq_2)
      show ?thesis
      proof (cases "c = mark")
        case True
        with r Cons show ?thesis by simp
      next
        case nm: False
        with "1.prems" Cons have "mark \<in> set cs" by simp
        moreover have "length cs < length t" using Cons by simp
        ultimately have "mark \<in> set (replace [space, mark] [mark] cs)" using "1.IH" by blast
        with r Cons show ?thesis by simp
      qed
    qed
  qed
qed

lemma fused_to_mark_keeps_mark: "mark \<in> set t \<Longrightarrow> mark \<in> set (fused_to_mark t)"
  by (simp add: fused_to_mark_def replace_fused_keeps_mark)

lemma text_with_mark_gen:
  assumes "mark \<in> set t" "fused_to_mark t \<noteq> [mark]"
  shows "maiyamok_loop (t # rest) placed i =
         maiyamok_loop rest
           (placed @ [filter (\<lambda>c. c \<noteq> mark) (fused_to_mark t),
                      filter (\<lambda>c. c \<noteq> mark) (fused_to_mark t)]) (i + 2)"
proof -
  have "skipped t rest = Inr False" using assms(1) isspace_no_mark by (auto simp: skipped_def)
  moreover have "maiyamok_step t placed i =
     Inr (placed @ [filter (\<lambda>c. c \<noteq> mark) (fused_to_mark t),
                    filter (\<lambda>c. c \<noteq> mark) (fused_to_mark t)], i + 2)"
  proof -
    have m: "contains [mark] (fused_to_mark t)"
      using fused_to_mark_keeps_mark [OF assms(1)] by (simp add: contains_single)
    have "maiyamok_step t placed i =
       (let text = fused_to_mark t
        in if [mark] = text then
             (case py_index placed (i - 1) of
                Inl e \<Rightarrow> Inl e
              | Inr prev \<Rightarrow> Inr (placed @ [prev], i + 1))
           else if contains [mark] text then
             (let stripped = replace [mark] [] text
              in Inr ((placed @ [stripped]) @ [stripped], (i + 1) + 1))
           else Inr (placed @ [text], i + 1))"
      by (simp only: maiyamok_step_def fused_to_mark_def)
    also have "\<dots> = Inr (placed @ [filter (\<lambda>c. c \<noteq> mark) (fused_to_mark t),
                    filter (\<lambda>c. c \<noteq> mark) (fused_to_mark t)], i + 2)"
      using assms(2) m by (auto simp: Let_def replace_single_empty)
    finally show ?thesis .
  qed
  ultimately show ?thesis by simp
qed

lemma maiyamok_whitespace_before_mark:
  assumes "mark \<notin> set a" "isspace b"
  shows "maiyamok [a, b, [mark]] = Inr [a, a]"
proof -
  have na: "\<not> contains [space, mark] a" "a \<noteq> [mark]" "\<not> contains [mark] a"
    using assms(1) by (auto dest: contains_pair_second simp: contains_single)
  have nb: "\<not> contains [mark] b" using isspace_no_mark [OF assms(2)] by (simp add: contains_single)
  have sa: "skipped a [b, [mark]] = Inr False" using nb by (simp add: skipped_def)
  have sb: "skipped b [[mark]] = Inr True" using assms(2) by (simp add: skipped_def)
  have sm: "skipped [mark] [] = Inr False"
    using mark_not_whitespace by (simp add: skipped_def isspace_def)
  have ta: "maiyamok_step a [] 0 = Inr ([a], 1)" using na by (simp add: maiyamok_step_def)
  have tm: "maiyamok_step [mark] [a] 1 = Inr ([a, a], 2)"
    by (simp add: maiyamok_step_def py_index_def space_def mark_def)
  show ?thesis by (simp add: maiyamok_def sa sb sm ta tm)
qed

text \<open>
  C6, as the code has it. (1) For tokens \<open>a\<close> and \<open>b\<close> without the mark, \<open>b\<close> not
  whitespace-only, the sequence \<open>[a, b, mark]\<close> yields \<open>[a, b, b]\<close>; (2) for a
  whitespace-only \<open>b\<close> it yields \<open>[a, a]\<close>, the whitespace before the mark being
  suppressed. (3) A token that is a space fused with the mark gives, in any sequence, the
  result that the bare mark gives in its place, and (4) the bare mark appends a duplicate
  of the last token placed into the output. (5) A token that contains the mark and is not
  the mark once its fused spaces are gone appends two consecutive copies of itself with
  every space fused before a mark dropped and the marks stripped; (6) that is the token
  with the mark stripped when it has no space fused with the mark. (7) The tokens without
  a mark that are not suppressed stand in the output in their order.
\<close>

theorem maiyamok_expansion:
  "(mark \<notin> set a \<and> mark \<notin> set b \<and> \<not> isspace b \<longrightarrow> maiyamok [a, b, [mark]] = Inr [a, b, b])
   \<and> (mark \<notin> set a \<and> isspace b \<longrightarrow> maiyamok [a, b, [mark]] = Inr [a, a])
   \<and> maiyamok (before @ [space, mark] # after) = maiyamok (before @ [mark] # after)
   \<and> maiyamok_loop ([mark] # rest) (placed @ [p]) (int (length (placed @ [p]))) =
       maiyamok_loop rest (placed @ [p, p]) (int (length (placed @ [p, p])))
   \<and> (mark \<in> set t \<and> fused_to_mark t \<noteq> [mark] \<longrightarrow>
        maiyamok_loop (t # rest) placed i =
        maiyamok_loop rest
          (placed @ [filter (\<lambda>c. c \<noteq> mark) (fused_to_mark t),
                     filter (\<lambda>c. c \<noteq> mark) (fused_to_mark t)]) (i + 2))
   \<and> (\<not> contains [space, mark] t \<longrightarrow> fused_to_mark t = t)
   \<and> (maiyamok sent = Inr out \<longrightarrow> subseq (unsuppressed_plain sent) out)"
proof (intro conjI impI)
  assume "mark \<notin> set a \<and> mark \<notin> set b \<and> \<not> isspace b"
  then show "maiyamok [a, b, [mark]] = Inr [a, b, b]" by (simp add: maiyamok_two_tokens_and_mark)
next
  assume "mark \<notin> set a \<and> isspace b"
  then show "maiyamok [a, b, [mark]] = Inr [a, a]" by (simp add: maiyamok_whitespace_before_mark)
next
  show "maiyamok (before @ [space, mark] # after) = maiyamok (before @ [mark] # after)"
    by (simp add: maiyamok_def fused_loop)
next
  show "maiyamok_loop ([mark] # rest) (placed @ [p]) (int (length (placed @ [p]))) =
       maiyamok_loop rest (placed @ [p, p]) (int (length (placed @ [p, p])))"
    by (rule bare_mark_step)
next
  assume "mark \<in> set t \<and> fused_to_mark t \<noteq> [mark]"
  then show "maiyamok_loop (t # rest) placed i =
        maiyamok_loop rest
          (placed @ [filter (\<lambda>c. c \<noteq> mark) (fused_to_mark t),
                     filter (\<lambda>c. c \<noteq> mark) (fused_to_mark t)]) (i + 2)"
    by (intro text_with_mark_gen) simp_all
next
  assume "\<not> contains [space, mark] t"
  then show "fused_to_mark t = t" by (simp add: fused_to_mark_def)
next
  assume "maiyamok sent = Inr out"
  then show "subseq (unsuppressed_plain sent) out"
    using maiyamok_loop_order [of sent "[]" 0 out] by (simp add: maiyamok_def)
qed

theorem maiyamok_expansion_witness:
  "maiyamok [[0x0E01], [0x0E02], [mark]] = Inr [[0x0E01], [0x0E02], [0x0E02]]
   \<and> maiyamok [[0x0E01], [space], [mark]] = Inr [[0x0E01], [0x0E01]]
   \<and> maiyamok ([[0x0E01]] @ [space, mark] # [[0x0E02]]) = maiyamok ([[0x0E01]] @ [mark] # [[0x0E02]])
   \<and> maiyamok_loop [[0x0E01, mark]] [] 0 = Inr [[0x0E01], [0x0E01]]
   \<and> maiyamok_loop [[0x0E01, space, mark]] [] 0 = Inr [[0x0E01], [0x0E01]]
   \<and> maiyamok [[0x0E01], [space], [mark], [0x0E02]] = Inr [[0x0E01], [0x0E01], [0x0E02]]
   \<and> subseq (unsuppressed_plain [[0x0E01], [space], [mark], [0x0E02]]) [[0x0E01], [0x0E01], [0x0E02]]"
proof -
  let ?a = "[0x0E01] :: ustring" and ?b = "[0x0E02] :: ustring"
  let ?t = "[0x0E01, mark] :: ustring" and ?u = "[0x0E01, space, mark] :: ustring"
  let ?sent = "[[0x0E01], [space], [mark], [0x0E02]] :: ustring list"
  let ?out = "[[0x0E01], [0x0E01], [0x0E02]] :: ustring list"
  note inst = maiyamok_expansion [of ?a ?b "[?a]" "[?b]" "[]" "[]" ?a ?t 0 ?sent ?out]
  note inst2 = maiyamok_expansion [of ?a "[space]" "[?a]" "[?b]" "[]" "[]" ?a ?u 0 ?sent ?out]
  have h1: "mark \<notin> set ?a \<and> mark \<notin> set ?b \<and> \<not> isspace ?b"
    by (simp add: mark_def isspace_def py_whitespace_def)
  have h2: "mark \<notin> set ?a \<and> isspace [space]"
    by (simp add: mark_def isspace_def py_whitespace_def space_def)
  have ft: "fused_to_mark ?t = ?t" by (simp add: fused_to_mark_def mark_def space_def)
  have fu: "fused_to_mark ?u = ?t" by (simp add: fused_to_mark_def mark_def space_def)
  have h4: "mark \<in> set ?t \<and> fused_to_mark ?t \<noteq> [mark]" by (simp add: ft; simp add: mark_def)
  have h4u: "mark \<in> set ?u \<and> fused_to_mark ?u \<noteq> [mark]" by (simp add: fu; simp add: mark_def)
  have h5: "maiyamok ?sent = Inr ?out"
    by (simp add: maiyamok_def skipped_def maiyamok_step_def isspace_def py_whitespace_def
          py_index_def mark_def space_def)
  from inst h1 have c1: "maiyamok [?a, ?b, [mark]] = Inr [?a, ?b, ?b]" by blast
  from inst2 h2 have c1b: "maiyamok [?a, [space], [mark]] = Inr [?a, ?a]" by blast
  from inst have c2: "maiyamok ([?a] @ [space, mark] # [?b]) = maiyamok ([?a] @ [mark] # [?b])"
    by blast
  from inst h4 have "maiyamok_loop (?t # []) [] 0 =
      maiyamok_loop [] ([] @ [filter (\<lambda>c. c \<noteq> mark) (fused_to_mark ?t),
                               filter (\<lambda>c. c \<noteq> mark) (fused_to_mark ?t)]) (0 + 2)"
    by blast
  then have c4: "maiyamok_loop [?t] [] 0 = Inr [?a, ?a]" by (simp add: ft; simp add: mark_def)
  from inst2 h4u have "maiyamok_loop (?u # []) [] 0 =
      maiyamok_loop [] ([] @ [filter (\<lambda>c. c \<noteq> mark) (fused_to_mark ?u),
                               filter (\<lambda>c. c \<noteq> mark) (fused_to_mark ?u)]) (0 + 2)"
    by blast
  then have c4u: "maiyamok_loop [?u] [] 0 = Inr [?a, ?a]" by (simp add: fu; simp add: mark_def)
  from inst h5 have c5: "subseq (unsuppressed_plain ?sent) ?out" by blast
  from c1 c1b c2 c4 c4u h5 c5 show ?thesis by blast
qed

text \<open>
  C6 as stated fails, for a whitespace token before the mark and for a token with a space
  fused before the mark: \<open>[U+0E01, " ", mark]\<close> yields \<open>[U+0E01, U+0E01]\<close>, and the one
  token U+0E01 U+0020 U+0E46 yields U+0E01 twice, while the token with the mark stripped
  is U+0E01 U+0020.
\<close>

theorem maiyamok_expansion_unconditional_fails:
  "maiyamok [[0x0E01], [space], [mark]] = Inr [[0x0E01], [0x0E01]]
   \<and> maiyamok [[0x0E01], [space], [mark]] \<noteq> Inr [[0x0E01], [space], [space]]
   \<and> maiyamok [[0x0E01, space, mark]] = Inr [[0x0E01], [0x0E01]]
   \<and> replace [mark] [] [0x0E01, space, mark] = [0x0E01, space]
   \<and> maiyamok [[0x0E01, space, mark]] \<noteq> Inr [[0x0E01, space], [0x0E01, space]]"
  by (simp add: maiyamok_def skipped_def maiyamok_step_def isspace_def py_whitespace_def
        py_index_def mark_def space_def Let_def)

text \<open>
  C10. A token sequence whose last token is whitespace-only makes \<open>maiyamok\<close> raise
  IndexError: at that token \<open>sent[j + 1]\<close> is read past the end (or an earlier bare mark
  has already raised IndexError on an empty output).
\<close>

theorem maiyamok_trailing_whitespace_raises:
  "sent \<noteq> [] \<Longrightarrow> isspace (last sent) \<Longrightarrow> maiyamok sent = Inl IndexError"
  by (simp add: maiyamok_def maiyamok_loop_trailing_space)

theorem maiyamok_trailing_whitespace_raises_witness:
  "[[0x0E01], [0x0E46], [0x20]] \<noteq> [] \<and> isspace (last [[0x0E01], [0x0E46], [0x20]])
   \<and> maiyamok [[0x0E01], [0x0E46], [0x20]] = Inl IndexError"
proof -
  have h1: "[[0x0E01], [0x0E46], [0x20::nat]] \<noteq> []" by simp
  have h2: "isspace (last [[0x0E01], [0x0E46], [0x20]])"
    by (simp add: isspace_def py_whitespace_def)
  from maiyamok_trailing_whitespace_raises [OF h1 h2] h1 h2 show ?thesis by blast
qed

section \<open>Properties of the normalization pipeline\<close>

subsection \<open>The dangling trimmer\<close>

text \<open>
  C9. \<open>remove_dangling\<close> removes exactly the longest run of dangling characters that
  starts the text; and whatever comes from the first character \<open>c\<close> that is not a
  dangling character on, marks included, is left as it is.
\<close>

theorem remove_dangling_only_leading:
  "text = takeWhile (\<lambda>c. c \<in> set (dangling_chars cls)) text @ remove_dangling cls text
   \<and> (c \<notin> set (dangling_chars cls) \<longrightarrow>
        remove_dangling cls (pre @ c # rest) = remove_dangling cls pre @ c # rest)"
  by (auto simp: remove_dangling_def dropWhile_append)

theorem remove_dangling_only_leading_witness:
  "0x0E01 \<notin> set (dangling_chars thai_classes)
   \<and> remove_dangling thai_classes ([0x0E48, 0x0E34] @ 0x0E01 # [0x0E49, 0x0E32])
       = [0x0E01, 0x0E49, 0x0E32]"
proof -
  have h: "0x0E01 \<notin> set (dangling_chars thai_classes)"
    by (simp add: dangling_chars_def thai_classes_def)
  have e: "remove_dangling thai_classes [0x0E48, 0x0E34] = []"
    by (simp add: remove_dangling_def dangling_chars_def thai_classes_def)
  from remove_dangling_only_leading [of _ thai_classes "0x0E01" "[0x0E48, 0x0E34]" "[0x0E49, 0x0E32]"] h
  have "remove_dangling thai_classes ([0x0E48, 0x0E34] @ 0x0E01 # [0x0E49, 0x0E32])
          = remove_dangling thai_classes [0x0E48, 0x0E34] @ 0x0E01 # [0x0E49, 0x0E32]"
    by blast
  with e h show ?thesis by simp
qed

subsection \<open>The collapse of tone marks\<close>

lemma sub_class_runs_append:
  "xs = [] \<or> \<not> P (last xs) \<Longrightarrow>
   sub_class_runs P f (xs @ ys) = sub_class_runs P f xs @ sub_class_runs P f ys"
proof (induction P f xs rule: sub_class_runs.induct)
  case (1 P repl)
  then show ?case by simp
next
  case (2 P repl c cs)
  show ?case
  proof (cases "P c")
    case True
    with "2.prems" have ne: "cs \<noteq> []" and nl: "\<not> P (last cs)" by (auto split: if_splits)
    then have ex: "last cs \<in> set cs" by simp
    from ex nl have tw: "takeWhile P (cs @ ys) = takeWhile P cs"
      by (rule takeWhile_append1)
    from ex nl have dw: "dropWhile P (cs @ ys) = dropWhile P cs @ ys"
      by (rule dropWhile_append1)
    from ex nl have dne: "dropWhile P cs \<noteq> []" by (auto simp: dropWhile_eq_Nil_conv)
    have "last (takeWhile P cs @ dropWhile P cs) = last (dropWhile P cs)"
      using dne by (rule last_appendR)
    then have "last (dropWhile P cs) = last cs" by simp
    with nl dne have "dropWhile P cs = [] \<or> \<not> P (last (dropWhile P cs))" by simp
    from "2.IH"(1) [OF True this] True tw dw show ?thesis by simp
  next
    case False
    from "2.prems" have "cs = [] \<or> \<not> P (last cs)" by (auto split: if_splits)
    from "2.IH"(2) [OF False this] False show ?thesis by simp
  qed
qed

lemma sub_class_runs_run:
  assumes "run \<noteq> []" "\<forall>x\<in>set run. P x" "post = [] \<or> \<not> P (hd post)"
  shows "sub_class_runs P last_char (run @ post) = last run # sub_class_runs P last_char post"
proof -
  from assms(1) obtain c cs where r: "run = c # cs" by (cases run) auto
  from assms(3) have tp: "takeWhile P post = []" and dp: "dropWhile P post = post"
    by (cases post; simp)+
  from assms(2) r have tw: "takeWhile P (cs @ post) = cs" and dw: "dropWhile P (cs @ post) = post"
    by (simp_all add: takeWhile_append2 dropWhile_append2 tp dp)
  from assms(2) r have "P c" by simp
  then show ?thesis by (simp add: r tw dw last_char_def)
qed

lemma sub_class_runs_none:
  "\<forall>x\<in>set xs. \<not> P x \<Longrightarrow> sub_class_runs P f xs = xs"
  by (induction xs) auto

lemma filter_not_dropWhile:
  "filter (\<lambda>c. \<not> P c) (dropWhile P cs) = filter (\<lambda>c. \<not> P c) cs"
  by (induction cs) auto

lemma sub_class_runs_others:
  "filter (\<lambda>c. \<not> P c) (sub_class_runs P last_char xs) = filter (\<lambda>c. \<not> P c) xs"
proof (induction xs rule: length_induct)
  case (1 xs)
  show ?case
  proof (cases xs)
    case Nil
    then show ?thesis by simp
  next
    case (Cons c cs)
    show ?thesis
    proof (cases "P c")
      case True
      have "last (c # takeWhile P cs) \<in> set (c # takeWhile P cs)"
        by (rule last_in_set) simp
      then have "P (last (c # takeWhile P cs))"
        using True by (auto dest: set_takeWhileD)
      then have pl: "filter (\<lambda>c. \<not> P c) (last_char (c # takeWhile P cs)) = []"
        by (simp add: last_char_def)
      have "length (dropWhile P cs) < length xs"
        using Cons length_dropWhile_le [of P cs] by simp
      with 1 have "filter (\<lambda>c. \<not> P c) (sub_class_runs P last_char (dropWhile P cs))
          = filter (\<lambda>c. \<not> P c) (dropWhile P cs)" by blast
      then show ?thesis
        using True pl Cons by (simp add: filter_not_dropWhile)
    next
      case False
      have "length cs < length xs" using Cons by simp
      with 1 have "filter (\<lambda>c. \<not> P c) (sub_class_runs P last_char cs)
          = filter (\<lambda>c. \<not> P c) cs" by blast
      with False Cons show ?thesis by simp
    qed
  qed
qed

lemma collapse_tonemarks_keeps_last:
  "(run \<noteq> [] \<and> set run \<subseteq> set (tonemarks cls)
      \<and> (pre = [] \<or> last pre \<notin> set (tonemarks cls))
      \<and> (post = [] \<or> hd post \<notin> set (tonemarks cls))
    \<longrightarrow> collapse_tonemarks cls (pre @ run @ post)
        = collapse_tonemarks cls pre @ [last run] @ collapse_tonemarks cls post)
   \<and> (set others \<inter> set (tonemarks cls) = {} \<longrightarrow> collapse_tonemarks cls others = others)
   \<and> filter (\<lambda>c. c \<notin> set (tonemarks cls)) (collapse_tonemarks cls text)
       = filter (\<lambda>c. c \<notin> set (tonemarks cls)) text"
proof (intro conjI impI)
  let ?P = "\<lambda>c. c \<in> set (tonemarks cls)"
  assume a: "run \<noteq> [] \<and> set run \<subseteq> set (tonemarks cls)
      \<and> (pre = [] \<or> last pre \<notin> set (tonemarks cls))
      \<and> (post = [] \<or> hd post \<notin> set (tonemarks cls))"
  then have 1: "pre = [] \<or> \<not> ?P (last pre)" and 2: "run \<noteq> []" and 3: "\<forall>x\<in>set run. ?P x"
    and 4: "post = [] \<or> \<not> ?P (hd post)" by auto
  show "collapse_tonemarks cls (pre @ run @ post)
        = collapse_tonemarks cls pre @ [last run] @ collapse_tonemarks cls post"
    unfolding collapse_tonemarks_def
    by (simp add: sub_class_runs_append [of pre ?P, OF 1] sub_class_runs_run [of run ?P, OF 2 3 4])
next
  assume "set others \<inter> set (tonemarks cls) = {}"
  then have "\<forall>x\<in>set others. \<not> x \<in> set (tonemarks cls)" by auto
  then show "collapse_tonemarks cls others = others"
    unfolding collapse_tonemarks_def by (rule sub_class_runs_none)
next
  show "filter (\<lambda>c. c \<notin> set (tonemarks cls)) (collapse_tonemarks cls text)
       = filter (\<lambda>c. c \<notin> set (tonemarks cls)) text"
    unfolding collapse_tonemarks_def by (rule sub_class_runs_others)
qed

lemma sub_class_runs_last_char_isolated:
  "successively (\<lambda>x y. \<not> (P x \<and> P y)) (sub_class_runs P last_char t)"
proof (induction t rule: length_induct)
  case (1 t)
  show ?case
  proof (cases t)
    case Nil
    then show ?thesis by simp
  next
    case (Cons c cs)
    show ?thesis
    proof (cases "P c")
      case False
      have "length cs < length t" using Cons by simp
      with 1 have "successively (\<lambda>x y. \<not> (P x \<and> P y)) (sub_class_runs P last_char cs)" by blast
      with False have "successively (\<lambda>x y. \<not> (P x \<and> P y)) (c # sub_class_runs P last_char cs)"
        by (auto simp: successively_Cons)
      with False Cons show ?thesis by simp
    next
      case True
      define d where "d = dropWhile P cs"
      have "length d < length t" unfolding d_def using Cons length_dropWhile_le [of P cs] by simp
      with 1 have ih: "successively (\<lambda>x y. \<not> (P x \<and> P y)) (sub_class_runs P last_char d)" by blast
      have "d = [] \<or> \<not> P (hd d)" unfolding d_def using hd_dropWhile [of P cs] by blast
      then have "sub_class_runs P last_char d = [] \<or> \<not> P (hd (sub_class_runs P last_char d))"
        by (cases d) auto
      with ih have "successively (\<lambda>x y. \<not> (P x \<and> P y))
          (last (c # takeWhile P cs) # sub_class_runs P last_char d)"
        by (auto simp: successively_Cons)
      moreover have "sub_class_runs P last_char (c # cs)
          = last (c # takeWhile P cs) # sub_class_runs P last_char d"
        using True unfolding d_def by (simp add: last_char_def)
      ultimately show ?thesis using Cons by simp
    qed
  qed
qed

text \<open>
  C7. In \<open>remove_repeat_vowels\<close>, after the collapse of duplicate marks, a maximal run of
  tone marks of the text (not empty, with no tone mark right before or right after it) is
  replaced by its last character, the text before and the text after being rewritten on
  their own; a text that has no tone mark at that point is returned as it is; the
  characters that are not tone marks are the same, in the same order, before and after
  the pass; and the result of \<open>remove_repeat_vowels\<close> has no two consecutive tone marks.
\<close>

theorem remove_repeat_vowels_keeps_last_tonemark:
  "(duplicate_marks_collapsed cls text = pre @ run @ post
      \<and> run \<noteq> [] \<and> set run \<subseteq> set (tonemarks cls)
      \<and> (pre = [] \<or> last pre \<notin> set (tonemarks cls))
      \<and> (post = [] \<or> hd post \<notin> set (tonemarks cls))
    \<longrightarrow> remove_repeat_vowels cls text
        = collapse_tonemarks cls pre @ [last run] @ collapse_tonemarks cls post)
   \<and> (set (duplicate_marks_collapsed cls text) \<inter> set (tonemarks cls) = {}
        \<longrightarrow> remove_repeat_vowels cls text = duplicate_marks_collapsed cls text)
   \<and> filter (\<lambda>c. c \<notin> set (tonemarks cls)) (remove_repeat_vowels cls text)
       = filter (\<lambda>c. c \<notin> set (tonemarks cls)) (duplicate_marks_collapsed cls text)
   \<and> successively (\<lambda>x y. \<not> (x \<in> set (tonemarks cls) \<and> y \<in> set (tonemarks cls)))
         (remove_repeat_vowels cls text)"
proof -
  have rrv: "remove_repeat_vowels cls text
      = collapse_tonemarks cls (duplicate_marks_collapsed cls text)"
    by (simp only: remove_repeat_vowels_def duplicate_marks_collapsed_def)
  note runs = collapse_tonemarks_keeps_last
      [of run cls pre post "duplicate_marks_collapsed cls text" "duplicate_marks_collapsed cls text"]
  have 1: "duplicate_marks_collapsed cls text = pre @ run @ post
      \<and> run \<noteq> [] \<and> set run \<subseteq> set (tonemarks cls)
      \<and> (pre = [] \<or> last pre \<notin> set (tonemarks cls))
      \<and> (post = [] \<or> hd post \<notin> set (tonemarks cls))
    \<longrightarrow> remove_repeat_vowels cls text
        = collapse_tonemarks cls pre @ [last run] @ collapse_tonemarks cls post"
    using runs by (auto simp only: rrv)
  have 2: "set (duplicate_marks_collapsed cls text) \<inter> set (tonemarks cls) = {}
        \<longrightarrow> remove_repeat_vowels cls text = duplicate_marks_collapsed cls text"
    using runs unfolding rrv by blast
  have 3: "filter (\<lambda>c. c \<notin> set (tonemarks cls)) (remove_repeat_vowels cls text)
       = filter (\<lambda>c. c \<notin> set (tonemarks cls)) (duplicate_marks_collapsed cls text)"
    using runs unfolding rrv by blast
  have 4: "successively (\<lambda>x y. \<not> (x \<in> set (tonemarks cls) \<and> y \<in> set (tonemarks cls)))
         (remove_repeat_vowels cls text)"
    unfolding rrv collapse_tonemarks_def by (rule sub_class_runs_last_char_isolated)
  from 1 2 3 4 show ?thesis by blast
qed

theorem remove_repeat_vowels_keeps_last_tonemark_witness:
  "duplicate_marks_collapsed thai_classes [0x0E01, 0x0E48, 0x0E48, 0x0E49, 0x0E02, 0x0E4A]
     = [0x0E01] @ [0x0E48, 0x0E48, 0x0E49] @ [0x0E02, 0x0E4A]
   \<and> remove_repeat_vowels thai_classes [0x0E01, 0x0E48, 0x0E48, 0x0E49, 0x0E02, 0x0E4A]
       = [0x0E01, 0x0E49, 0x0E02, 0x0E4A]
   \<and> set (duplicate_marks_collapsed thai_classes [0x0E01, 0x0E02]) \<inter> set (tonemarks thai_classes) = {}
   \<and> remove_repeat_vowels thai_classes [0x0E01, 0x0E02] = [0x0E01, 0x0E02]"
proof -
  let ?t = "[0x0E01, 0x0E48, 0x0E48, 0x0E49, 0x0E02, 0x0E4A] :: ustring"
  let ?pre = "[0x0E01] :: ustring" and ?run = "[0x0E48, 0x0E48, 0x0E49] :: ustring"
  let ?post = "[0x0E02, 0x0E4A] :: ustring" and ?o = "[0x0E01, 0x0E02] :: ustring"
  have r: "reorder_vowels thai_classes ?t = ?t"
    by (simp add: reorder_vowels_def reorder_pairs_def thai_classes_def)
  have n: "fold norepeat (norepeat_chars thai_classes) ?t = ?t"
    by (simp add: norepeat_chars_def thai_classes_def space_def)
  have d: "duplicate_marks_collapsed thai_classes ?t = ?pre @ ?run @ ?post"
    by (simp only: duplicate_marks_collapsed_def r n append.simps)
  have h: "?run \<noteq> [] \<and> set ?run \<subseteq> set (tonemarks thai_classes)
      \<and> (?pre = [] \<or> last ?pre \<notin> set (tonemarks thai_classes))
      \<and> (?post = [] \<or> hd ?post \<notin> set (tonemarks thai_classes))"
    by (simp add: thai_classes_def)
  from remove_repeat_vowels_keeps_last_tonemark [of thai_classes ?t ?pre ?run ?post] d h
  have "remove_repeat_vowels thai_classes ?t
        = collapse_tonemarks thai_classes ?pre @ [last ?run] @ collapse_tonemarks thai_classes ?post"
    by blast
  then have c1: "remove_repeat_vowels thai_classes ?t = [0x0E01, 0x0E49, 0x0E02, 0x0E4A]"
    by (simp add: collapse_tonemarks_def thai_classes_def last_char_def)
  have ro: "reorder_vowels thai_classes ?o = ?o"
    by (simp add: reorder_vowels_def reorder_pairs_def thai_classes_def)
  have no: "fold norepeat (norepeat_chars thai_classes) ?o = ?o"
    by (simp add: norepeat_chars_def thai_classes_def space_def)
  have do: "duplicate_marks_collapsed thai_classes ?o = ?o"
    by (simp only: duplicate_marks_collapsed_def ro no)
  have h2: "set (duplicate_marks_collapsed thai_classes ?o) \<inter> set (tonemarks thai_classes) = {}"
    unfolding do by (simp add: thai_classes_def)
  from remove_repeat_vowels_keeps_last_tonemark [of thai_classes ?o] h2
  have "remove_repeat_vowels thai_classes ?o = duplicate_marks_collapsed thai_classes ?o" by blast
  then have c2: "remove_repeat_vowels thai_classes ?o = ?o" by (simp only: do)
  from d c1 h2 c2 show ?thesis by blast
qed

subsection \<open>Spaces and newlines\<close>

lemma sub_class_runs_append_gen:
  "xs = [] \<or> ys = [] \<or> \<not> P (last xs) \<or> \<not> P (hd ys) \<Longrightarrow>
   sub_class_runs P f (xs @ ys) = sub_class_runs P f xs @ sub_class_runs P f ys"
proof (induction xs rule: length_induct)
  case (1 xs)
  show ?case
  proof (cases xs)
    case Nil
    then show ?thesis by simp
  next
    case (Cons c cs)
    show ?thesis
    proof (cases "ys = []")
      case True
      then show ?thesis by simp
    next
      case yne: False
      show ?thesis
      proof (cases "P c")
        case False
        have "length cs < length xs" using Cons by simp
        moreover have "cs = [] \<or> ys = [] \<or> \<not> P (last cs) \<or> \<not> P (hd ys)"
          using "1.prems" Cons by (auto split: if_splits)
        ultimately have "sub_class_runs P f (cs @ ys) = sub_class_runs P f cs @ sub_class_runs P f ys"
          using "1.IH" by blast
        with False Cons show ?thesis by simp
      next
        case True
        show ?thesis
        proof (cases "\<forall>x\<in>set cs. P x")
          case all: True
          then have "P (last xs)" using Cons True by (cases cs rule: rev_cases) auto
          with "1.prems" Cons yne have nh: "\<not> P (hd ys)" by auto
          then have ty: "takeWhile P ys = []" and dy: "dropWhile P ys = ys"
            using yne by (cases ys; simp)+
          have tw: "takeWhile P (cs @ ys) = cs" and dw: "dropWhile P (cs @ ys) = ys"
            using all by (simp_all add: takeWhile_append2 dropWhile_append2 ty dy)
          have tc: "takeWhile P cs = cs" and dc: "dropWhile P cs = []" using all by simp_all
          show ?thesis using True Cons by (simp add: tw dw tc dc)
        next
          case False
          then obtain x where x: "x \<in> set cs" "\<not> P x" by blast
          then have tw: "takeWhile P (cs @ ys) = takeWhile P cs"
            and dw: "dropWhile P (cs @ ys) = dropWhile P cs @ ys"
            by (simp_all add: takeWhile_append1 dropWhile_append1)
          from x have dne: "dropWhile P cs \<noteq> []" by (auto simp: dropWhile_eq_Nil_conv)
          have "last (takeWhile P cs @ dropWhile P cs) = last (dropWhile P cs)"
            using dne by (rule last_appendR)
          then have ld: "last (dropWhile P cs) = last cs" by simp
          have cne: "cs \<noteq> []" using x by auto
          have "length (dropWhile P cs) < length xs"
            using Cons length_dropWhile_le [of P cs] by simp
          moreover have "dropWhile P cs = [] \<or> ys = [] \<or> \<not> P (last (dropWhile P cs)) \<or> \<not> P (hd ys)"
            using "1.prems" Cons cne ld by auto
          ultimately have "sub_class_runs P f (dropWhile P cs @ ys)
              = sub_class_runs P f (dropWhile P cs) @ sub_class_runs P f ys"
            using "1.IH" by blast
          with True Cons show ?thesis by (simp add: tw dw)
        qed
      qed
    qed
  qed
qed

lemma sub_class_runs_all:
  assumes "xs \<noteq> []" "\<forall>x\<in>set xs. P x"
  shows "sub_class_runs P f xs = f xs"
proof -
  from assms(1) obtain c cs where xs: "xs = c # cs" by (cases xs) auto
  with assms(2) have tw: "takeWhile P cs = cs" and dw: "dropWhile P cs = []" and c: "P c"
    by simp_all
  show ?thesis by (simp add: xs tw dw c)
qed

lemma sub_class_runs_last:
  assumes "xs \<noteq> []" "\<not> P (last xs)"
  shows "sub_class_runs P f xs \<noteq> [] \<and> last (sub_class_runs P f xs) = last xs"
proof -
  have "sub_class_runs P f (butlast xs @ [last xs])
          = sub_class_runs P f (butlast xs) @ sub_class_runs P f [last xs]"
    using assms(2) by (intro sub_class_runs_append_gen) simp
  then have "sub_class_runs P f xs = sub_class_runs P f (butlast xs) @ [last xs]"
    using assms by simp
  then show ?thesis by simp
qed

lemma sub_class_runs_hd:
  "xs \<noteq> [] \<Longrightarrow> \<not> P (hd xs) \<Longrightarrow>
   sub_class_runs P f xs \<noteq> [] \<and> hd (sub_class_runs P f xs) = hd xs"
  by (cases xs) auto

lemma squeeze_Cons:
  "squeeze (c # cs) = (if c = space then space # squeeze (dropWhile (\<lambda>x. x = space) cs)
                       else c # squeeze cs)"
  by (simp add: squeeze_def)

lemma squeeze_Nil: "squeeze [] = []"
  by (simp add: squeeze_def)

lemma squeeze_dropWhile:
  "squeeze (dropWhile (\<lambda>x. x = space) y) = dropWhile (\<lambda>x. x = space) (squeeze y)"
proof -
  have nosp: "dropWhile (\<lambda>x. x = space) (squeeze z) = squeeze z" if "z = [] \<or> hd z \<noteq> space" for z
    using that by (cases z) (auto simp: squeeze_Cons squeeze_Nil)
  have hd: "dropWhile (\<lambda>x. x = space) z = [] \<or> hd (dropWhile (\<lambda>x. x = space) z) \<noteq> space" for z :: ustring
    using hd_dropWhile [of "\<lambda>x. x = space" z] by auto
  show ?thesis
  proof (cases y)
    case Nil
    then show ?thesis by (simp add: squeeze_Nil)
  next
    case (Cons d ds)
    show ?thesis
    proof (cases "d = space")
      case True
      with Cons show ?thesis by (simp add: squeeze_Cons nosp [OF hd])
    next
      case False
      with Cons show ?thesis by (simp add: squeeze_Cons)
    qed
  qed
qed

lemma squeeze_replace: "squeeze (replace [space, space] [space] t) = squeeze t"
proof (induction t rule: length_induct)
  case (1 t)
  show ?case
  proof (cases t)
    case Nil
    then show ?thesis by simp
  next
    case (Cons c cs)
    show ?thesis
    proof (cases "take 2 (c # cs) = [space, space]")
      case True
      then obtain ds where cs: "cs = space # ds" and c: "c = space" by (cases cs) auto
      have "length ds < length t" using Cons cs by simp
      with 1 have ih: "squeeze (replace [space, space] [space] ds) = squeeze ds" by blast
      have "squeeze (replace [space, space] [space] t)
              = space # squeeze (dropWhile (\<lambda>x. x = space) (replace [space, space] [space] ds))"
        using Cons cs c by (simp add: squeeze_Cons)
      also have "\<dots> = space # squeeze (dropWhile (\<lambda>x. x = space) ds)"
        by (simp add: squeeze_dropWhile ih)
      also have "\<dots> = squeeze t" using Cons cs c by (simp add: squeeze_Cons)
      finally show ?thesis .
    next
      case False
      have "length cs < length t" using Cons by simp
      with 1 have ih: "squeeze (replace [space, space] [space] cs) = squeeze cs" by blast
      from False have r: "replace [space, space] [space] (c # cs) = c # replace [space, space] [space] cs"
        by (auto simp: numeral_2_eq_2)
      show ?thesis using Cons r ih by (simp add: squeeze_Cons squeeze_dropWhile)
    qed
  qed
qed

lemma squeeze_id: "\<not> contains [space, space] t \<Longrightarrow> squeeze t = t"
proof (induction t)
  case Nil
  then show ?case by (simp add: squeeze_Nil)
next
  case (Cons c cs)
  then have ih: "squeeze cs = cs" by simp
  show ?case
  proof (cases "c = space")
    case True
    with Cons.prems have "cs = [] \<or> hd cs \<noteq> space" by (cases cs) auto
    then have "dropWhile (\<lambda>x. x = space) cs = cs" by (cases cs) auto
    with True ih show ?thesis by (simp add: squeeze_Cons)
  next
    case False
    with ih show ?thesis by (simp add: squeeze_Cons)
  qed
qed

lemma dup_spaces_loop_squeeze: "dup_spaces_loop t = squeeze t"
proof (induction t rule: dup_spaces_loop.induct)
  case (1 t)
  show ?case
  proof (cases "contains [space, space] t")
    case True
    with 1 show ?thesis by (subst dup_spaces_loop.simps) (simp add: squeeze_replace)
  next
    case False
    then show ?thesis by (subst dup_spaces_loop.simps) (simp add: squeeze_id)
  qed
qed

lemma dup_spaces_loop_no_double: "\<not> contains [space, space] (dup_spaces_loop t)"
proof (induction t rule: dup_spaces_loop.induct)
  case (1 t)
  then show ?case by (subst dup_spaces_loop.simps) simp
qed

lemma sub_newlines_runs: "sub_newlines t = sub_class_runs sp_or_nl newline_if_any t"
proof (induction t rule: length_induct)
  case (1 t)
  show ?case
  proof (cases t)
    case Nil
    then show ?thesis by simp
  next
    case (Cons c cs)
    have ihc: "sub_newlines cs = sub_class_runs sp_or_nl newline_if_any cs"
      using 1 Cons by simp
    show ?thesis
    proof (cases "sp_or_nl c")
      case False
      with Cons ihc show ?thesis by simp
    next
      case True
      have "length (dropWhile sp_or_nl cs) < length t"
        using Cons length_dropWhile_le [of sp_or_nl cs] by simp
      with 1 have ihd: "sub_newlines (dropWhile sp_or_nl cs)
          = sub_class_runs sp_or_nl newline_if_any (dropWhile sp_or_nl cs)" by blast
      show ?thesis
      proof (cases "newline \<in> set (takeWhile sp_or_nl (c # cs))")
        case nl: True
        then have "newline_if_any (c # takeWhile sp_or_nl cs) = [newline]"
          using True by (simp add: newline_if_any_def)
        with nl True Cons ihd show ?thesis by simp
      next
        case nonl: False
        have "sub_class_runs sp_or_nl newline_if_any cs
            = sub_class_runs sp_or_nl newline_if_any (takeWhile sp_or_nl cs @ dropWhile sp_or_nl cs)"
          by simp
        also have "\<dots> = sub_class_runs sp_or_nl newline_if_any (takeWhile sp_or_nl cs)
                        @ sub_class_runs sp_or_nl newline_if_any (dropWhile sp_or_nl cs)"
          using hd_dropWhile [of sp_or_nl cs]
          by (intro sub_class_runs_append_gen) auto
        also have "sub_class_runs sp_or_nl newline_if_any (takeWhile sp_or_nl cs) = takeWhile sp_or_nl cs"
        proof (cases "takeWhile sp_or_nl cs = []")
          case True
          then show ?thesis by simp
        next
          case False
          have "\<forall>x\<in>set (takeWhile sp_or_nl cs). sp_or_nl x" by (auto dest: set_takeWhileD)
          with False have "sub_class_runs sp_or_nl newline_if_any (takeWhile sp_or_nl cs)
              = newline_if_any (takeWhile sp_or_nl cs)" by (rule sub_class_runs_all)
          moreover have "newline \<notin> set (takeWhile sp_or_nl cs)" using nonl True by simp
          ultimately show ?thesis by (simp add: newline_if_any_def)
        qed
        finally have "sub_class_runs sp_or_nl newline_if_any cs
            = takeWhile sp_or_nl cs @ sub_class_runs sp_or_nl newline_if_any (dropWhile sp_or_nl cs)" .
        moreover have "newline_if_any (c # takeWhile sp_or_nl cs) = c # takeWhile sp_or_nl cs"
          using nonl True by (simp add: newline_if_any_def)
        ultimately show ?thesis using nonl True Cons ihc by simp
      qed
    qed
  qed
qed

lemma contains_pair_iff:
  "contains [a, b] xs \<longleftrightarrow> \<not> successively (\<lambda>x y. \<not> (x = a \<and> y = b)) xs"
proof (induction xs)
  case Nil
  then show ?case by simp
next
  case (Cons c cs)
  then show ?case by (cases cs) auto
qed

lemma sub_newlines_hd:
  "cs \<noteq> [] \<Longrightarrow> \<not> sp_or_nl (hd cs) \<Longrightarrow> sub_newlines cs \<noteq> [] \<and> hd (sub_newlines cs) = hd cs"
  by (cases cs) auto

lemma sub_newlines_isolated:
  "successively (\<lambda>x y. \<not> (x = space \<and> y = space)) t \<Longrightarrow>
   successively (\<lambda>x y. \<not> (sp_or_nl x \<and> sp_or_nl y)) (sub_newlines t)"
proof (induction t rule: length_induct)
  case (1 t)
  show ?case
  proof (cases t)
    case Nil
    then show ?thesis by simp
  next
    case (Cons c cs)
    have sc: "successively (\<lambda>x y. \<not> (x = space \<and> y = space)) cs"
      using "1.prems" Cons by (auto simp: successively_Cons)
    have ihc: "successively (\<lambda>x y. \<not> (sp_or_nl x \<and> sp_or_nl y)) (sub_newlines cs)"
      using 1 Cons sc by simp
    show ?thesis
    proof (cases "newline \<in> set (takeWhile sp_or_nl (c # cs))")
      case True
      define d where "d = dropWhile sp_or_nl (c # cs)"
      have "successively (\<lambda>x y. \<not> (x = space \<and> y = space)) (takeWhile sp_or_nl (c # cs) @ d)"
        using "1.prems" Cons unfolding d_def by (simp only: takeWhile_dropWhile_id)
      then have sd: "successively (\<lambda>x y. \<not> (x = space \<and> y = space)) d"
        unfolding successively_append_iff by blast
      from True have pc: "sp_or_nl c" by (cases "sp_or_nl c") auto
      have "length d \<le> length cs"
        unfolding d_def using pc length_dropWhile_le [of sp_or_nl cs] by simp
      then have "length d < length t" using Cons by simp
      with 1 sd have ihd: "successively (\<lambda>x y. \<not> (sp_or_nl x \<and> sp_or_nl y)) (sub_newlines d)"
        by blast
      have "d = [] \<or> \<not> sp_or_nl (hd d)"
        unfolding d_def using hd_dropWhile [of sp_or_nl "c # cs"] by blast
      then have "sub_newlines d = [] \<or> \<not> sp_or_nl (hd (sub_newlines d))"
        using sub_newlines_hd [of d] by (cases "d = []") auto
      with ihd have "successively (\<lambda>x y. \<not> (sp_or_nl x \<and> sp_or_nl y)) (newline # sub_newlines d)"
        by (auto simp: successively_Cons)
      moreover have "sub_newlines (c # cs) = newline # sub_newlines d"
        using True unfolding d_def by (simp only: sub_newlines.simps if_True)
      ultimately show ?thesis using Cons by simp
    next
      case False
      then have unf: "sub_newlines (c # cs) = c # sub_newlines cs"
        by (simp only: sub_newlines.simps if_False)
      show ?thesis
      proof (cases "sp_or_nl c")
        case np: False
        with ihc have "successively (\<lambda>x y. \<not> (sp_or_nl x \<and> sp_or_nl y)) (c # sub_newlines cs)"
          by (auto simp: successively_Cons)
        with unf Cons show ?thesis by simp
      next
        case True
        with False have c: "c = space" by (auto simp: sp_or_nl_def)
        have "cs = [] \<or> \<not> sp_or_nl (hd cs)"
        proof (cases cs)
          case Nil
          then show ?thesis by simp
        next
          case (Cons d ds)
          with "1.prems" \<open>t = c # cs\<close> c have "d \<noteq> space" by auto
          moreover have "d \<noteq> newline" using False True Cons
            by (auto simp: sp_or_nl_def split: if_splits)
          ultimately show ?thesis using Cons by (simp add: sp_or_nl_def)
        qed
        then have "sub_newlines cs = [] \<or> \<not> sp_or_nl (hd (sub_newlines cs))"
          using sub_newlines_hd [of cs] by (cases "cs = []") auto
        with ihc have "successively (\<lambda>x y. \<not> (sp_or_nl x \<and> sp_or_nl y)) (c # sub_newlines cs)"
          by (auto simp: successively_Cons)
        with unf Cons show ?thesis by simp
      qed
    qed
  qed
qed

lemma strip_decomp: "\<exists>A B. t = A @ strip t @ B"
proof -
  let ?u = "dropWhile py_whitespace t"
  let ?v = "dropWhile py_whitespace (rev ?u)"
  have "rev (takeWhile py_whitespace (rev ?u) @ ?v) = rev (rev ?u)"
    by (simp only: takeWhile_dropWhile_id)
  then have "?u = rev ?v @ rev (takeWhile py_whitespace (rev ?u))"
    by (simp only: rev_append rev_rev_ident)
  moreover have "t = takeWhile py_whitespace t @ ?u" by simp
  ultimately have "t = takeWhile py_whitespace t @ strip t @ rev (takeWhile py_whitespace (rev ?u))"
    unfolding strip_def by (metis (no_types) append_assoc)
  then show ?thesis by blast
qed

lemma strip_ends:
  "strip t = [] \<or> (\<not> py_whitespace (hd (strip t)) \<and> \<not> py_whitespace (last (strip t)))"
proof (cases "strip t = []")
  case True
  then show ?thesis by simp
next
  case False
  let ?u = "dropWhile py_whitespace t"
  let ?v = "dropWhile py_whitespace (rev ?u)"
  from False have vne: "?v \<noteq> []" by (simp add: strip_def)
  then have hv: "\<not> py_whitespace (hd ?v)" using hd_dropWhile by blast
  have une: "?u \<noteq> []"
  proof
    assume a: "?u = []"
    have "?v = dropWhile py_whitespace (rev [])" by (simp only: a)
    then have "?v = []" by simp
    with vne show False by blast
  qed
  then have hu: "\<not> py_whitespace (hd ?u)" using hd_dropWhile by blast
  have "last (takeWhile py_whitespace (rev ?u) @ ?v) = last ?v"
    using vne by (rule last_appendR)
  then have "last (rev ?u) = last ?v" by (simp only: takeWhile_dropWhile_id)
  then have "last ?v = hd ?u" using une by (simp add: last_rev)
  with hu hv vne show ?thesis by (simp add: strip_def hd_rev last_rev)
qed

lemma strip_id:
  "t = [] \<or> (\<not> py_whitespace (hd t) \<and> \<not> py_whitespace (last t)) \<Longrightarrow> strip t = t"
proof (cases t)
  case Nil
  then show ?thesis by (simp add: strip_def)
next
  case (Cons c cs)
  assume "t = [] \<or> (\<not> py_whitespace (hd t) \<and> \<not> py_whitespace (last t))"
  with Cons have h: "\<not> py_whitespace c" and l: "\<not> py_whitespace (last t)" by auto
  from h Cons have 1: "dropWhile py_whitespace t = t" by simp
  from Cons have "t \<noteq> []" by simp
  then obtain ys y where t: "t = ys @ [y]" by (metis rev_exhaust)
  with l have "\<not> py_whitespace y" by simp
  then have "dropWhile py_whitespace (rev t) = rev t" by (simp add: t)
  with 1 show ?thesis by (simp add: strip_def)
qed

lemma set_squeeze: "set (squeeze t) = set t"
proof (induction t rule: length_induct)
  case (1 t)
  show ?case
  proof (cases t)
    case Nil
    then show ?thesis by (simp add: squeeze_Nil)
  next
    case (Cons c cs)
    show ?thesis
    proof (cases "c = space")
      case False
      with 1 Cons show ?thesis by (simp add: squeeze_Cons)
    next
      case True
      have "length (dropWhile (\<lambda>x. x = space) cs) < length t"
        using Cons length_dropWhile_le [of "\<lambda>x. x = space" cs] by simp
      with 1 have ih: "set (squeeze (dropWhile (\<lambda>x. x = space) cs)) = set (dropWhile (\<lambda>x. x = space) cs)"
        by blast
      have "set cs = set (takeWhile (\<lambda>x. x = space) cs) \<union> set (dropWhile (\<lambda>x. x = space) cs)"
        by (metis set_append takeWhile_dropWhile_id)
      moreover have "set (takeWhile (\<lambda>x. x = space) cs) \<subseteq> {space}"
        by (auto dest: set_takeWhileD)
      ultimately have "insert space (set cs) = insert space (set (dropWhile (\<lambda>x. x = space) cs))"
        by auto
      with True Cons ih show ?thesis by (simp add: squeeze_Cons)
    qed
  qed
qed

lemma whitespace_space: "py_whitespace space" and whitespace_newline: "py_whitespace newline"
  by (simp_all add: py_whitespace_def space_def newline_def)

lemma not_whitespace_not_sp_or_nl: "\<not> py_whitespace c \<Longrightarrow> \<not> sp_or_nl c"
  using whitespace_space whitespace_newline by (auto simp: sp_or_nl_def)

lemma not_whitespace_not_space: "\<not> py_whitespace c \<Longrightarrow> c \<noteq> space"
  using whitespace_space by auto

lemma strip_between:
  assumes "X \<noteq> []" "\<not> py_whitespace (last X)" "Y \<noteq> []" "\<not> py_whitespace (hd Y)"
  shows "strip (X @ Z @ Y) = dropWhile py_whitespace X @ Z @ rev (dropWhile py_whitespace (rev Y))"
proof -
  have "last X \<in> set X" using assms(1) by simp
  then have 1: "dropWhile py_whitespace (X @ Z @ Y) = dropWhile py_whitespace X @ Z @ Y"
    using assms(2) by (rule dropWhile_append1)
  have "hd Y \<in> set (rev Y)" using assms(3) by simp
  then have 2: "dropWhile py_whitespace (rev Y @ rev Z @ rev (dropWhile py_whitespace X))
      = dropWhile py_whitespace (rev Y) @ rev Z @ rev (dropWhile py_whitespace X)"
    using assms(4) by (rule dropWhile_append1)
  show ?thesis by (simp add: strip_def 1 2)
qed

lemma strip_right_clean:
  assumes "X \<noteq> []" "\<not> py_whitespace (last X)"
  shows "strip X = dropWhile py_whitespace X"
proof -
  from assms(1) obtain ys y where X: "X = ys @ [y]" by (metis rev_exhaust)
  with assms(2) have y: "\<not> py_whitespace y" by simp
  have "dropWhile py_whitespace X = (if \<forall>x\<in>set ys. py_whitespace x then [y] else dropWhile py_whitespace ys @ [y])"
    using y by (simp add: X dropWhile_append)
  then obtain us where u: "dropWhile py_whitespace X = us @ [y]" by (metis append_Nil)
  then have "dropWhile py_whitespace (rev (dropWhile py_whitespace X)) = rev (dropWhile py_whitespace X)"
    using y by simp
  then show ?thesis by (simp add: strip_def)
qed

lemma strip_left_clean:
  assumes "Y \<noteq> []" "\<not> py_whitespace (hd Y)"
  shows "strip Y = rev (dropWhile py_whitespace (rev Y))"
proof -
  from assms have "dropWhile py_whitespace Y = Y" by (cases Y) auto
  then show ?thesis by (simp add: strip_def)
qed

lemma sub_newlines_append:
  "xs = [] \<or> ys = [] \<or> \<not> sp_or_nl (last xs) \<or> \<not> sp_or_nl (hd ys) \<Longrightarrow>
   sub_newlines (xs @ ys) = sub_newlines xs @ sub_newlines ys"
  unfolding sub_newlines_runs by (rule sub_class_runs_append_gen)

lemma squeeze_append:
  "xs = [] \<or> ys = [] \<or> last xs \<noteq> space \<or> hd ys \<noteq> space \<Longrightarrow>
   squeeze (xs @ ys) = squeeze xs @ squeeze ys"
  unfolding squeeze_def by (rule sub_class_runs_append_gen) simp

lemma newline_run_collapses:
  assumes "a \<noteq> []" "\<not> py_whitespace (last a)" "b \<noteq> []" "\<not> py_whitespace (hd b)"
    and "set run \<subseteq> {space, newline}" "newline \<in> set run"
  shows "remove_dup_spaces (a @ run @ b) = remove_dup_spaces a @ [newline] @ remove_dup_spaces b"
proof -
  let ?X = "sub_newlines (squeeze a)" and ?Y = "sub_newlines (squeeze b)"
  have la: "last a \<noteq> space" "\<not> sp_or_nl (last a)"
    using assms(2) by (auto dest: not_whitespace_not_space not_whitespace_not_sp_or_nl)
  have hb: "hd b \<noteq> space" "\<not> sp_or_nl (hd b)"
    using assms(4) by (auto dest: not_whitespace_not_space not_whitespace_not_sp_or_nl)
  have sa: "squeeze a \<noteq> [] \<and> last (squeeze a) = last a"
    unfolding squeeze_def using assms(1) la(1) by (intro sub_class_runs_last) simp_all
  have sb: "squeeze b \<noteq> [] \<and> hd (squeeze b) = hd b"
    unfolding squeeze_def using assms(3) hb(1) by (intro sub_class_runs_hd) simp_all
  have X: "?X \<noteq> [] \<and> last ?X = last a"
    unfolding sub_newlines_runs using sa la(2) sub_class_runs_last [of "squeeze a" sp_or_nl newline_if_any]
    by simp
  have Y: "?Y \<noteq> [] \<and> hd ?Y = hd b"
    using sb hb(2) sub_newlines_hd [of "squeeze b"] by simp
  have rnl: "newline \<in> set (squeeze run)"
    using assms(6) by (simp add: set_squeeze)
  then have rne: "squeeze run \<noteq> []" by auto
  have rall: "\<forall>x\<in>set (squeeze run). sp_or_nl x"
    using assms(5) by (auto simp: set_squeeze sp_or_nl_def)
  have R: "sub_newlines (squeeze run) = [newline]"
    unfolding sub_newlines_runs
    using sub_class_runs_all [OF rne rall, of newline_if_any] rnl by (simp add: newline_if_any_def)
  have "squeeze (a @ run @ b) = squeeze a @ squeeze (run @ b)"
    using la(1) by (intro squeeze_append) simp
  also have "squeeze (run @ b) = squeeze run @ squeeze b"
    using hb(1) by (intro squeeze_append) simp
  finally have sq: "squeeze (a @ run @ b) = squeeze a @ squeeze run @ squeeze b" .
  have "sub_newlines (squeeze a @ squeeze run @ squeeze b)
          = ?X @ sub_newlines (squeeze run @ squeeze b)"
    using sa la(2) by (intro sub_newlines_append) simp
  also have "sub_newlines (squeeze run @ squeeze b) = sub_newlines (squeeze run) @ ?Y"
    using sb hb(2) by (intro sub_newlines_append) simp
  finally have nl: "sub_newlines (squeeze (a @ run @ b)) = ?X @ [newline] @ ?Y"
    by (simp add: sq R)
  have "strip (?X @ [newline] @ ?Y) = dropWhile py_whitespace ?X @ [newline] @ rev (dropWhile py_whitespace (rev ?Y))"
    using X Y assms(2,4) by (intro strip_between) simp_all
  moreover have "strip ?X = dropWhile py_whitespace ?X"
    using X assms(2) by (intro strip_right_clean) simp_all
  moreover have "strip ?Y = rev (dropWhile py_whitespace (rev ?Y))"
    using Y assms(4) by (intro strip_left_clean) simp_all
  ultimately show ?thesis
    by (simp add: remove_dup_spaces_def dup_spaces_loop_squeeze nl)
qed

lemma remove_dup_spaces_isolated:
  "successively (\<lambda>x y. \<not> (sp_or_nl x \<and> sp_or_nl y)) (remove_dup_spaces t)"
proof -
  have "\<not> contains [space, space] (dup_spaces_loop t)" by (rule dup_spaces_loop_no_double)
  then have "successively (\<lambda>x y. \<not> (x = space \<and> y = space)) (dup_spaces_loop t)"
    by (simp add: contains_pair_iff)
  then have s: "successively (\<lambda>x y. \<not> (sp_or_nl x \<and> sp_or_nl y)) (sub_newlines (dup_spaces_loop t))"
    by (rule sub_newlines_isolated)
  obtain A B where "sub_newlines (dup_spaces_loop t) = A @ strip (sub_newlines (dup_spaces_loop t)) @ B"
    using strip_decomp by blast
  then have "successively (\<lambda>x y. \<not> (sp_or_nl x \<and> sp_or_nl y))
      (A @ strip (sub_newlines (dup_spaces_loop t)) @ B)" using s by simp
  then show ?thesis
    unfolding successively_append_iff remove_dup_spaces_def by blast
qed

lemma isolated_no_pair:
  assumes "successively (\<lambda>x y. \<not> (sp_or_nl x \<and> sp_or_nl y)) xs" "sp_or_nl a" "sp_or_nl b"
  shows "\<not> contains [a, b] xs"
proof -
  from assms(1) have "successively (\<lambda>x y. \<not> (x = a \<and> y = b)) xs"
    by (rule successively_mono) (use assms(2,3) in auto)
  then show ?thesis by (simp add: contains_pair_iff)
qed

text \<open>
  C8. The result of \<open>remove_dup_spaces\<close> has no two consecutive spaces; no newline of it
  stands next to a space or to another newline; it is empty or begins and ends with a
  character that is not whitespace; and a run of spaces and newlines that contains a
  newline, between a text that ends with a non-whitespace character and a text that
  begins with one, is replaced by exactly one newline, the two texts being collapsed on
  their own.
\<close>

theorem remove_dup_spaces_result:
  "\<not> contains [space, space] (remove_dup_spaces text)
   \<and> \<not> contains [newline, newline] (remove_dup_spaces text)
   \<and> \<not> contains [space, newline] (remove_dup_spaces text)
   \<and> \<not> contains [newline, space] (remove_dup_spaces text)
   \<and> (remove_dup_spaces text = [] \<or>
        (\<not> py_whitespace (hd (remove_dup_spaces text)) \<and>
         \<not> py_whitespace (last (remove_dup_spaces text))))
   \<and> (a \<noteq> [] \<and> \<not> py_whitespace (last a) \<and> b \<noteq> [] \<and> \<not> py_whitespace (hd b)
        \<and> set run \<subseteq> {space, newline} \<and> newline \<in> set run
      \<longrightarrow> remove_dup_spaces (a @ run @ b)
            = remove_dup_spaces a @ [newline] @ remove_dup_spaces b)"
proof -
  note iso = remove_dup_spaces_isolated [of "text"]
  have s: "sp_or_nl space" and n: "sp_or_nl newline" by (simp_all add: sp_or_nl_def)
  have 1: "\<not> contains [space, space] (remove_dup_spaces text)"
    using iso s s by (rule isolated_no_pair)
  have 2: "\<not> contains [newline, newline] (remove_dup_spaces text)"
    using iso n n by (rule isolated_no_pair)
  have 3: "\<not> contains [space, newline] (remove_dup_spaces text)"
    using iso s n by (rule isolated_no_pair)
  have 4: "\<not> contains [newline, space] (remove_dup_spaces text)"
    using iso n s by (rule isolated_no_pair)
  have 5: "remove_dup_spaces text = [] \<or>
        (\<not> py_whitespace (hd (remove_dup_spaces text)) \<and>
         \<not> py_whitespace (last (remove_dup_spaces text)))"
    unfolding remove_dup_spaces_def by (rule strip_ends)
  have 6: "a \<noteq> [] \<and> \<not> py_whitespace (last a) \<and> b \<noteq> [] \<and> \<not> py_whitespace (hd b)
        \<and> set run \<subseteq> {space, newline} \<and> newline \<in> set run
      \<longrightarrow> remove_dup_spaces (a @ run @ b)
            = remove_dup_spaces a @ [newline] @ remove_dup_spaces b"
    using newline_run_collapses by blast
  from 1 2 3 4 5 6 show ?thesis by blast
qed

theorem remove_dup_spaces_result_witness:
  "[0x0E01] \<noteq> [] \<and> \<not> py_whitespace (last [0x0E01])
   \<and> [0x0E02] \<noteq> [] \<and> \<not> py_whitespace (hd [0x0E02])
   \<and> set [space, newline, newline, space] \<subseteq> {space, newline}
   \<and> newline \<in> set [space, newline, newline, space]
   \<and> remove_dup_spaces ([0x0E01] @ [space, newline, newline, space] @ [0x0E02])
       = [0x0E01, newline, 0x0E02]
   \<and> \<not> contains [space, space] (remove_dup_spaces [space, 0x0E01, space, space, space, 0x0E02, space])"
proof -
  let ?a = "[0x0E01] :: ustring" and ?b = "[0x0E02] :: ustring"
  let ?run = "[space, newline, newline, space]"
  let ?t = "[space, 0x0E01, space, space, space, 0x0E02, space]"
  note inst = remove_dup_spaces_result [of ?t ?a ?b ?run]
  have h: "?a \<noteq> [] \<and> \<not> py_whitespace (last ?a) \<and> ?b \<noteq> [] \<and> \<not> py_whitespace (hd ?b)
        \<and> set ?run \<subseteq> {space, newline} \<and> newline \<in> set ?run"
    by (simp add: py_whitespace_def)
  have ea: "remove_dup_spaces ?a = ?a"
    by (simp add: remove_dup_spaces_def dup_spaces_loop_squeeze squeeze_def space_def newline_def
          sp_or_nl_def strip_def py_whitespace_def)
  have eb: "remove_dup_spaces ?b = ?b"
    by (simp add: remove_dup_spaces_def dup_spaces_loop_squeeze squeeze_def space_def newline_def
          sp_or_nl_def strip_def py_whitespace_def)
  from inst h have "remove_dup_spaces (?a @ ?run @ ?b)
            = remove_dup_spaces ?a @ [newline] @ remove_dup_spaces ?b" by blast
  then have c6: "remove_dup_spaces (?a @ ?run @ ?b) = [0x0E01, newline, 0x0E02]"
    by (simp only: ea eb append.simps)
  from inst have c1: "\<not> contains [space, space] (remove_dup_spaces ?t)" by blast
  from h c6 c1 show ?thesis by blast
qed

subsection \<open>The orchestrator\<close>

lemma remove_char_loop_filter: "remove_char_loop ch t = filter (\<lambda>x. x \<noteq> ch) t"
proof (cases "contains [ch] t")
  case True
  have "\<not> contains [ch] (replace [ch] [] t)"
    by (simp add: contains_single replace_single_empty)
  then have "remove_char_loop ch (replace [ch] [] t) = replace [ch] [] t"
    by (subst remove_char_loop.simps) simp
  with True show ?thesis
    by (subst remove_char_loop.simps) (simp add: replace_single_empty)
next
  case False
  then have "filter (\<lambda>x. x \<noteq> ch) t = t" by (auto simp: contains_single filter_id_conv)
  with False show ?thesis by (subst remove_char_loop.simps) simp
qed

lemma remove_zw_filter: "remove_zw t = filter (\<lambda>x. x \<noteq> 0x200B \<and> x \<noteq> 0x200C) t"
  by (simp add: remove_zw_def zero_width_chars_def remove_char_loop_filter conj_commute)

lemma remove_zw_id: "0x200B \<notin> set t \<Longrightarrow> 0x200C \<notin> set t \<Longrightarrow> remove_zw t = t"
  by (auto simp: remove_zw_filter filter_id_conv)

lemma set_sub_newlines: "set (sub_newlines t) \<subseteq> set t"
proof (induction t rule: sub_newlines.induct)
  case 1
  then show ?case by simp
next
  case (2 c cs)
  show ?case
  proof (cases "newline \<in> set (takeWhile sp_or_nl (c # cs))")
    case True
    then have unf: "sub_newlines (c # cs) = newline # sub_newlines (dropWhile sp_or_nl (c # cs))"
      by (simp only: sub_newlines.simps if_True)
    from True have "newline \<in> set (c # cs)" by (meson set_takeWhileD)
    moreover have "set (dropWhile sp_or_nl (c # cs)) \<subseteq> set (c # cs)"
      by (rule set_dropWhileD [THEN subsetI])
    ultimately show ?thesis using "2.IH"(1) [OF True] unfolding unf by auto
  next
    case False
    then have unf: "sub_newlines (c # cs) = c # sub_newlines cs"
      by (simp only: sub_newlines.simps if_False)
    show ?thesis using "2.IH"(2) [OF False] unfolding unf by auto
  qed
qed

lemma set_strip: "set (strip t) \<subseteq> set t"
proof -
  obtain A B where "t = A @ strip t @ B" using strip_decomp by blast
  then have "set t = set A \<union> set (strip t) \<union> set B" by (metis set_append Un_assoc)
  then show ?thesis by blast
qed

lemma set_remove_dup_spaces: "set (remove_dup_spaces t) \<subseteq> set t"
proof -
  have "set (remove_dup_spaces t) \<subseteq> set (sub_newlines (squeeze t))"
    unfolding remove_dup_spaces_def dup_spaces_loop_squeeze by (rule set_strip)
  also have "\<dots> \<subseteq> set (squeeze t)" by (rule set_sub_newlines)
  finally show ?thesis by (simp add: set_squeeze)
qed

lemma sub_newlines_id:
  "successively (\<lambda>x y. \<not> (sp_or_nl x \<and> sp_or_nl y)) t \<Longrightarrow> sub_newlines t = t"
proof (induction t)
  case Nil
  then show ?case by simp
next
  case (Cons c cs)
  then have ih: "sub_newlines cs = cs" by (auto simp: successively_Cons)
  show ?case
  proof (cases "sp_or_nl c")
    case False
    then have "newline \<notin> set (takeWhile sp_or_nl (c # cs))" by simp
    then have "sub_newlines (c # cs) = c # sub_newlines cs"
      by (simp only: sub_newlines.simps if_False)
    with ih show ?thesis by simp
  next
    case True
    with Cons.prems have "cs = [] \<or> \<not> sp_or_nl (hd cs)" by (auto simp: successively_Cons)
    then have tw: "takeWhile sp_or_nl cs = []" and dw: "dropWhile sp_or_nl cs = cs"
      by (cases cs; simp)+
    show ?thesis
    proof (cases "c = newline")
      case nl: True
      then show ?thesis using True ih by (simp add: tw dw)
    next
      case False
      then show ?thesis using True ih by (simp add: tw)
    qed
  qed
qed

text \<open>
  Every rule of \<open>remove_repeat_vowels\<close> is a scan from left to right that, at each
  position, either replaces a match and goes on after it, or copies one character. Such a
  scan never makes the text longer and keeps the shape \<open>settled\<close>, when its matches are
  as \<open>tame_match\<close> describes.
\<close>

lemma sp_or_nl_whitespace: "sp_or_nl c \<Longrightarrow> py_whitespace c"
  by (auto simp: sp_or_nl_def py_whitespace_def space_def newline_def)

lemma scanner_length:
  assumes eq: "\<And>c cs. f (c # cs) =
        (case m (c # cs) of Some (out, rest) \<Rightarrow> out @ f rest | None \<Rightarrow> c # f cs)"
    and nil: "f [] = []"
    and tame: "\<And>t out rest. m t = Some (out, rest) \<Longrightarrow> tame_match t out rest"
  shows "length (f t) \<le> length t"
proof (induction t rule: length_induct)
  case (1 t)
  show ?case
  proof (cases t)
    case Nil
    then show ?thesis by (simp add: nil)
  next
    case (Cons c cs)
    show ?thesis
    proof (cases "m (c # cs)")
      case None
      have "length (f cs) \<le> length cs" using 1 Cons by simp
      with None Cons show ?thesis by (simp add: eq)
    next
      case (Some p)
      obtain out rest where p: "p = (out, rest)" by (cases p)
      from tame [of "c # cs" out rest] Some p obtain pre where
        pre: "pre \<noteq> []" "c # cs = pre @ rest" "length out \<le> length pre"
        by (auto simp: tame_match_def)
      then have "length rest < length t" using Cons
        by (metis append_eq_conv_conj length_drop length_greater_0_conv diff_less length_append add_diff_cancel_left' less_add_same_cancel2 add.commute)
      with 1 have "length (f rest) \<le> length rest" by blast
      moreover have "length t = length pre + length rest" using pre(2) Cons by (metis length_append)
      ultimately show ?thesis using Some p Cons pre(3) by (simp add: eq)
    qed
  qed
qed

lemma scanner_settled:
  assumes eq: "\<And>c cs. f (c # cs) =
        (case m (c # cs) of Some (out, rest) \<Rightarrow> out @ f rest | None \<Rightarrow> c # f cs)"
    and nil: "f [] = []"
    and tame: "\<And>t out rest. m t = Some (out, rest) \<Longrightarrow> tame_match t out rest"
  shows "settled t \<Longrightarrow> settled (f t)"
proof (induction t rule: length_induct)
  case (1 t)
  let ?G = "\<lambda>x y. \<not> (sp_or_nl x \<and> sp_or_nl y)"
  have hd_inv: "f u \<noteq> [] \<and> sp_or_nl (hd (f u)) \<longrightarrow> u \<noteq> [] \<and> hd (f u) = hd u" for u
  proof (cases u)
    case Nil
    then show ?thesis by (simp add: nil)
  next
    case (Cons c cs)
    show ?thesis
    proof (cases "m (c # cs)")
      case None
      with Cons show ?thesis by (simp add: eq)
    next
      case (Some p)
      obtain out rest where p: "p = (out, rest)" by (cases p)
      from tame [of "c # cs" out rest] Some p have o: "out \<noteq> []" "sp_or_nl (hd out) \<longrightarrow> hd out = c"
        by (auto simp: tame_match_def)
      have "f u = out @ f rest" using Some p Cons by (simp add: eq)
      then have "hd (f u) = hd out" using o(1) by simp
      moreover have "hd u = c" "u \<noteq> []" using Cons by simp_all
      ultimately show ?thesis using o(2) by metis
    qed
  qed
  show ?case
  proof (cases t)
    case Nil
    with "1.prems" show ?thesis by (simp add: nil)
  next
    case (Cons c cs)
    from "1.prems" Cons have zw: "0x200B \<notin> set (c # cs)" "0x200C \<notin> set (c # cs)"
      and suc: "successively ?G (c # cs)" and lst: "\<not> py_whitespace (last (c # cs))"
      by (auto simp: settled_def)
    show ?thesis
    proof (cases "m (c # cs)")
      case None
      have ft: "f t = c # f cs" using None Cons by (simp add: eq)
      show ?thesis
      proof (cases cs)
        case Nil
        with ft lst zw show ?thesis by (simp add: nil settled_def)
      next
        case cs: (Cons d ds)
        have "settled cs" using zw suc lst cs by (auto simp: settled_def)
        moreover have "length cs < length t" using Cons by simp
        ultimately have s: "settled (f cs)" using "1.IH" by blast
        have pair: "f cs = [] \<or> ?G c (hd (f cs))"
        proof (cases "f cs \<noteq> [] \<and> sp_or_nl (hd (f cs))")
          case True
          with hd_inv [of cs] have "hd (f cs) = hd cs" by blast
          with True suc cs show ?thesis by auto
        next
          case False
          then show ?thesis by blast
        qed
        have le: "length (f cs) \<le> length cs" using eq nil tame by (rule scanner_length)
        show ?thesis
        proof (cases "f cs = []")
          case True
          have "\<not> py_whitespace c"
          proof
            assume w: "py_whitespace c"
            show False
            proof (cases "m cs")
              case None
              with cs True show False by (simp add: eq)
            next
              case (Some q)
              obtain o2 r2 where "q = (o2, r2)" by (cases q)
              with Some tame [of cs o2 r2] cs True show False
                by (auto simp: eq tame_match_def)
            qed
          qed
          with True ft zw show ?thesis by (simp add: settled_def)
        next
          case False
          with s ft pair zw show ?thesis by (auto simp: settled_def successively_Cons)
        qed
      qed
    next
      case (Some p)
      obtain out rest where p: "p = (out, rest)" by (cases p)
      from tame [of "c # cs" out rest] Some p obtain pre where
        pre: "pre \<noteq> []" "c # cs = pre @ rest" "length out \<le> length pre"
        and out: "out \<noteq> []" "successively ?G out" "\<not> py_whitespace (last out)"
        and ozw: "0x200B \<notin> set out" "0x200C \<notin> set out"
        using zw by (auto simp: tame_match_def)
      have ft: "f t = out @ f rest" using Some p Cons by (simp add: eq)
      have "length rest < length t" using pre Cons
        by (metis length_append length_greater_0_conv less_add_same_cancel2 add.commute)
      moreover have "settled rest"
      proof -
        have "successively ?G (pre @ rest)" using suc pre(2) by simp
        then have "successively ?G rest" unfolding successively_append_iff by blast
        moreover have "rest = [] \<or> \<not> py_whitespace (last rest)"
          using lst pre(2) by (cases "rest = []") auto
        moreover have "0x200B \<notin> set rest" "0x200C \<notin> set rest" using zw pre(2) by auto
        ultimately show ?thesis by (simp add: settled_def)
      qed
      ultimately have s: "settled (f rest)" using "1.IH" by blast
      have nl: "\<not> sp_or_nl (last out)" using out(3) sp_or_nl_whitespace by blast
      have "successively ?G (out @ f rest)"
        unfolding successively_append_iff using out(2) s nl by (auto simp: settled_def)
      moreover have "\<not> py_whitespace (last (out @ f rest))"
        using out s by (cases "f rest = []") (auto simp: settled_def)
      ultimately show ?thesis using ft ozw s out(1) by (auto simp: settled_def)
    qed
  qed
qed

lemma scanner_tame:
  assumes eq: "\<And>c cs. f (c # cs) =
        (case m (c # cs) of Some (out, rest) \<Rightarrow> out @ f rest | None \<Rightarrow> c # f cs)"
    and nil: "f [] = []"
    and tame: "\<And>t out rest. m t = Some (out, rest) \<Longrightarrow> tame_match t out rest"
  shows "length (f t) \<le> length t \<and> (settled t \<longrightarrow> settled (f t))"
  using scanner_length [of f m, OF eq nil tame] scanner_settled [of f m, OF eq nil tame]
  by blast

lemma tame_matchI:
  assumes "pre \<noteq> []" "t = pre @ rest" "length out \<le> length pre" "out \<noteq> []"
    and "successively (\<lambda>x y. \<not> (sp_or_nl x \<and> sp_or_nl y)) out"
    and "sp_or_nl (hd out) \<Longrightarrow> hd out = hd t"
    and "\<not> py_whitespace (last out)"
    and "0x200B \<notin> set t \<Longrightarrow> 0x200C \<notin> set t \<Longrightarrow>  0x200B \<notin> set out \<and> 0x200C \<notin> set out"
  shows "tame_match t out rest"
  unfolding tame_match_def using assms by blast

lemma successively_plain:
  "\<forall>x\<in>set out. \<not> py_whitespace x \<Longrightarrow> successively (\<lambda>x y. \<not> (sp_or_nl x \<and> sp_or_nl y)) out"
proof (induction out)
  case Nil
  then show ?case by simp
next
  case (Cons a out)
  then show ?case using sp_or_nl_whitespace by (cases out) (auto simp: successively_Cons)
qed

lemma tame_match_plain:
  assumes "pre \<noteq> []" "t = pre @ rest" "length out \<le> length pre" "out \<noteq> []"
    and "\<forall>x\<in>set out. \<not> py_whitespace x"
    and "\<forall>x\<in>set out. x \<in> set t \<or> (x \<noteq> 0x200B \<and> x \<noteq> 0x200C)"
  shows "tame_match t out rest"
proof (rule tame_matchI [OF assms(1-4)])
  show "successively (\<lambda>x y. \<not> (sp_or_nl x \<and> sp_or_nl y)) out"
    using assms(5) by (rule successively_plain)
  have "\<not> py_whitespace (hd out)" using assms(4,5) by simp
  then show "sp_or_nl (hd out) \<Longrightarrow> hd out = hd t" using sp_or_nl_whitespace by blast
  show "\<not> py_whitespace (last out)" using assms(4,5) by simp
  show "0x200B \<notin> set t \<Longrightarrow> 0x200C \<notin> set t \<Longrightarrow>  0x200B \<notin> set out \<and> 0x200C \<notin> set out"
    using assms(6) by blast
qed

lemma swap_groups_tame:
  assumes P: "\<And>c. P c \<Longrightarrow> \<not> py_whitespace c" and Q: "\<And>c. Q c \<Longrightarrow> \<not> py_whitespace c"
  shows "length (swap_groups P Q t) \<le> length t \<and> (settled t \<longrightarrow> settled (swap_groups P Q t))"
proof (rule scanner_tame [where f = "swap_groups P Q" and t = t and m = "\<lambda>t. case t of [] \<Rightarrow> None | c # cs \<Rightarrow>
      if P c \<and> takeWhile Q (dropWhile P cs) \<noteq> []
      then Some (takeWhile Q (dropWhile P cs) @ takeWhile P (c # cs), dropWhile Q (dropWhile P cs))
      else None"])
  show "swap_groups P Q [] = []" by simp
next
  fix c cs
  show "swap_groups P Q (c # cs) =
        (case (case c # cs of [] \<Rightarrow> None | c # cs \<Rightarrow>
      if P c \<and> takeWhile Q (dropWhile P cs) \<noteq> []
      then Some (takeWhile Q (dropWhile P cs) @ takeWhile P (c # cs), dropWhile Q (dropWhile P cs))
      else None) of Some (out, rest) \<Rightarrow> out @ swap_groups P Q rest | None \<Rightarrow> c # swap_groups P Q cs)"
    by simp
next
  fix t out rest
  assume a: "(case t of [] \<Rightarrow> None | c # cs \<Rightarrow>
      if P c \<and> takeWhile Q (dropWhile P cs) \<noteq> []
      then Some (takeWhile Q (dropWhile P cs) @ takeWhile P (c # cs), dropWhile Q (dropWhile P cs))
      else None) = Some (out, rest)"
  then obtain c cs where t: "t = c # cs" by (cases t) auto
  have c: "P c" "takeWhile Q (dropWhile P cs) \<noteq> []"
    and out: "out = takeWhile Q (dropWhile P cs) @ takeWhile P (c # cs)"
    and rest: "rest = dropWhile Q (dropWhile P cs)"
    using a unfolding t by (simp_all split: if_splits)
  define pre where "pre = takeWhile P (c # cs) @ takeWhile Q (dropWhile P cs)"
  have 1: "pre \<noteq> []" using c by (simp add: pre_def)
  have "c # cs = (takeWhile P (c # cs) @ takeWhile Q (dropWhile P cs)) @ dropWhile Q (dropWhile P cs)"
    using c(1) by simp
  then have 2: "t = pre @ rest" unfolding t pre_def rest .
  have 3: "length out \<le> length pre" by (simp add: out pre_def)
  have 4: "out \<noteq> []" using c by (simp add: out)
  have inP: "\<forall>x\<in>set (takeWhile P (c # cs)). P x" by (auto dest: set_takeWhileD)
  have inQ: "\<forall>x\<in>set (takeWhile Q (dropWhile P cs)). Q x" by (auto dest: set_takeWhileD)
  have 5: "\<forall>x\<in>set out. \<not> py_whitespace x" unfolding out using inP inQ P Q by auto
  have "set out = set pre" by (auto simp: out pre_def)
  then have 6: "\<forall>x\<in>set out. x \<in> set t \<or> (x \<noteq> 0x200B \<and> x \<noteq> 0x200C)" using 2 by auto
  show "tame_match t out rest" using 1 2 3 4 5 6 by (rule tame_match_plain)
qed

lemma nikhahit_sara_aa_tame:
  assumes T: "\<And>c. T c \<Longrightarrow> \<not> py_whitespace c"
  shows "length (nikhahit_sara_aa T t) \<le> length t \<and> (settled t \<longrightarrow> settled (nikhahit_sara_aa T t))"
proof (rule scanner_tame [where f = "nikhahit_sara_aa T" and t = t and m = "\<lambda>t. case t of [] \<Rightarrow> None | c # cs \<Rightarrow>
      if c = 0x0E4D \<and> take 1 (dropWhile T cs) = [0x0E32]
      then Some (takeWhile T cs @ [0x0E33], drop 1 (dropWhile T cs))
      else None"])
  show "nikhahit_sara_aa T [] = []" by simp
next
  fix c cs
  show "nikhahit_sara_aa T (c # cs) =
        (case (case c # cs of [] \<Rightarrow> None | c # cs \<Rightarrow>
      if c = 0x0E4D \<and> take 1 (dropWhile T cs) = [0x0E32]
      then Some (takeWhile T cs @ [0x0E33], drop 1 (dropWhile T cs))
      else None) of Some (out, rest) \<Rightarrow> out @ nikhahit_sara_aa T rest | None \<Rightarrow> c # nikhahit_sara_aa T cs)"
    by simp
next
  fix t out rest
  assume a: "(case t of [] \<Rightarrow> None | c # cs \<Rightarrow>
      if c = 0x0E4D \<and> take 1 (dropWhile T cs) = [0x0E32]
      then Some (takeWhile T cs @ [0x0E33], drop 1 (dropWhile T cs))
      else None) = Some (out, rest)"
  then obtain c cs where t: "t = c # cs" by (cases t) auto
  have c: "c = 0x0E4D" "take 1 (dropWhile T cs) = [0x0E32]"
    and out: "out = takeWhile T cs @ [0x0E33]"
    and rest: "rest = drop 1 (dropWhile T cs)"
    using a unfolding t by (simp_all split: if_splits)
  define pre where "pre = c # takeWhile T cs @ [0x0E32]"
  have 1: "pre \<noteq> []" by (simp add: pre_def)
  have "dropWhile T cs = take 1 (dropWhile T cs) @ drop 1 (dropWhile T cs)"
    by (simp only: append_take_drop_id)
  then have "dropWhile T cs = [0x0E32] @ rest" unfolding c(2) rest .
  then have d: "dropWhile T cs = 0x0E32 # rest" by simp
  have "cs = takeWhile T cs @ dropWhile T cs" by simp
  then have "cs = takeWhile T cs @ 0x0E32 # rest" using d by simp
  then have 2: "t = pre @ rest" using t by (simp add: pre_def)
  have 3: "length out \<le> length pre" by (simp add: out pre_def)
  have 4: "out \<noteq> []" by (simp add: out)
  have inT: "\<forall>x\<in>set (takeWhile T cs). T x" by (auto dest: set_takeWhileD)
  have 5: "\<forall>x\<in>set out. \<not> py_whitespace x" unfolding out using inT T
    by (auto simp: py_whitespace_def)
  have 6: "\<forall>x\<in>set out. x \<in> set t \<or> (x \<noteq> 0x200B \<and> x \<noteq> 0x200C)"
    unfolding out 2 pre_def by auto
  show "tame_match t out rest" using 1 2 3 4 5 6 by (rule tame_match_plain)
qed

lemma lakkhangyao_tame:
  "length (lakkhangyao t) \<le> length t \<and> (settled t \<longrightarrow> settled (lakkhangyao t))"
proof (rule scanner_tame [where f = "lakkhangyao" and t = t and m = "\<lambda>t. case t of c # d # rest \<Rightarrow>
      if c \<noteq> 0x0E24 \<and> c \<noteq> 0x0E26 \<and> d = 0x0E45 then Some ([c, 0x0E32], rest) else None
      | _ \<Rightarrow> None"])
  show "lakkhangyao [] = []" by simp
next
  fix c :: uchar and cs
  show "lakkhangyao (c # cs) =
        (case (case c # cs of c # d # rest \<Rightarrow>
      if c \<noteq> 0x0E24 \<and> c \<noteq> 0x0E26 \<and> d = 0x0E45 then Some ([c, 0x0E32], rest) else None
      | _ \<Rightarrow> None) of Some (out, rest) \<Rightarrow> out @ lakkhangyao rest | None \<Rightarrow> c # lakkhangyao cs)"
    by (cases cs) auto
next
  fix t :: ustring and out rest
  assume a: "(case t of c # d # rest \<Rightarrow>
      if c \<noteq> 0x0E24 \<and> c \<noteq> 0x0E26 \<and> d = 0x0E45 then Some ([c, 0x0E32], rest) else None
      | _ \<Rightarrow> None) = Some (out, rest)"
  then obtain c where t: "t = c # 0x0E45 # rest" and out: "out = [c, 0x0E32]"
    by (auto split: list.splits if_splits)
  show "tame_match t out rest"
  proof (rule tame_matchI [where pre = "[c, 0x0E45]"])
    show "successively (\<lambda>x y. \<not> (sp_or_nl x \<and> sp_or_nl y)) out"
      by (simp add: out sp_or_nl_def space_def newline_def)
    show "\<not> py_whitespace (last out)" by (simp add: out py_whitespace_def)
    show "0x200B \<notin> set t \<Longrightarrow> 0x200C \<notin> set t \<Longrightarrow> 0x200B \<notin> set out \<and> 0x200C \<notin> set out"
      by (auto simp: t out)
  qed (simp_all add: t out)
qed

lemma replace_sara_e_tame:
  "length (replace [0x0E40, 0x0E40] [0x0E41] t) \<le> length t
     \<and> (settled t \<longrightarrow> settled (replace [0x0E40, 0x0E40] [0x0E41] t))"
proof (rule scanner_tame [where f = "replace [0x0E40, 0x0E40] [0x0E41]" and t = t and m = "\<lambda>t. if take 2 t = [0x0E40, 0x0E40] then Some ([0x0E41], drop 2 t) else None"])
  show "replace [0x0E40, 0x0E40] [0x0E41] [] = []" by simp
next
  fix c :: uchar and cs
  show "replace [0x0E40, 0x0E40] [0x0E41] (c # cs) =
        (case (if take 2 (c # cs) = [0x0E40, 0x0E40] then Some ([0x0E41], drop 2 (c # cs)) else None)
         of Some (out, rest) \<Rightarrow> out @ replace [0x0E40, 0x0E40] [0x0E41] rest
          | None \<Rightarrow> c # replace [0x0E40, 0x0E40] [0x0E41] cs)"
    by (simp add: numeral_2_eq_2)
next
  fix t :: ustring and out :: ustring and rest
  assume a: "(if take 2 t = [0x0E40, 0x0E40] then Some ([0x0E41], drop 2 t) else None) = Some (out, rest)"
  then have tk: "take 2 t = [0x0E40, 0x0E40]" and out: "out = [0x0E41]" and rest: "rest = drop 2 t"
    by (auto split: if_splits)
  have 2: "t = [0x0E40, 0x0E40] @ rest" using tk rest by (metis append_take_drop_id)
  show "tame_match t out rest"
    by (rule tame_match_plain [where pre = "[0x0E40, 0x0E40]"])
       (use 2 in \<open>simp_all add: out py_whitespace_def\<close>)
qed

lemma norepeat_tame:
  assumes ch: "\<not> py_whitespace ch"
  shows "length (norepeat ch t) \<le> length t \<and> (settled t \<longrightarrow> settled (norepeat ch t))"
proof (rule scanner_tame [where f = "norepeat ch" and t = t and m = "\<lambda>t. case t of [] \<Rightarrow> None | c # cs \<Rightarrow>
      if c = ch \<and> ch \<in> set (takeWhile (\<lambda>x. x = ch \<or> x = space) cs)
      then Some ([ch], drop (length (takeWhile (\<lambda>x. x = ch \<or> x = space) cs)
             - length (takeWhile (\<lambda>x. x \<noteq> ch) (rev (takeWhile (\<lambda>x. x = ch \<or> x = space) cs)))) cs)
      else None"])
  show "norepeat ch [] = []" by simp
next
  fix c cs
  show "norepeat ch (c # cs) =
        (case (case c # cs of [] \<Rightarrow> None | c # cs \<Rightarrow>
      if c = ch \<and> ch \<in> set (takeWhile (\<lambda>x. x = ch \<or> x = space) cs)
      then Some ([ch], drop (length (takeWhile (\<lambda>x. x = ch \<or> x = space) cs)
             - length (takeWhile (\<lambda>x. x \<noteq> ch) (rev (takeWhile (\<lambda>x. x = ch \<or> x = space) cs)))) cs)
      else None) of Some (out, rest) \<Rightarrow> out @ norepeat ch rest | None \<Rightarrow> c # norepeat ch cs)"
    by (simp add: Let_def)
next
  fix t out rest
  assume a: "(case t of [] \<Rightarrow> None | c # cs \<Rightarrow>
      if c = ch \<and> ch \<in> set (takeWhile (\<lambda>x. x = ch \<or> x = space) cs)
      then Some ([ch], drop (length (takeWhile (\<lambda>x. x = ch \<or> x = space) cs)
             - length (takeWhile (\<lambda>x. x \<noteq> ch) (rev (takeWhile (\<lambda>x. x = ch \<or> x = space) cs)))) cs)
      else None) = Some (out, rest)"
  then obtain c cs where t: "t = c # cs" by (cases t) auto
  define k where "k = length (takeWhile (\<lambda>x. x = ch \<or> x = space) cs)
             - length (takeWhile (\<lambda>x. x \<noteq> ch) (rev (takeWhile (\<lambda>x. x = ch \<or> x = space) cs)))"
  have c: "c = ch" and out: "out = [ch]" and rest: "rest = drop k cs"
    using a unfolding t k_def by (simp_all split: if_splits)
  have 2: "t = (c # take k cs) @ rest" using t rest by simp
  show "tame_match t out rest"
    by (rule tame_match_plain [where pre = "c # take k cs"])
       (use 2 ch in \<open>simp_all add: out c\<close>)
qed

lemma collapse_tame:
  assumes P: "\<And>c. P c \<Longrightarrow> \<not> py_whitespace c"
  shows "length (sub_class_runs P last_char t) \<le> length t
     \<and> (settled t \<longrightarrow> settled (sub_class_runs P last_char t))"
proof (rule scanner_tame [where f = "sub_class_runs P last_char" and t = t and m = "\<lambda>t. case t of [] \<Rightarrow> None | c # cs \<Rightarrow>
      if P c then Some (last_char (takeWhile P (c # cs)), dropWhile P cs) else None"])
  show "sub_class_runs P last_char [] = []" by simp
next
  fix c cs
  show "sub_class_runs P last_char (c # cs) =
        (case (case c # cs of [] \<Rightarrow> None | c # cs \<Rightarrow>
      if P c then Some (last_char (takeWhile P (c # cs)), dropWhile P cs) else None)
         of Some (out, rest) \<Rightarrow> out @ sub_class_runs P last_char rest
          | None \<Rightarrow> c # sub_class_runs P last_char cs)"
    by simp
next
  fix t out rest
  assume a: "(case t of [] \<Rightarrow> None | c # cs \<Rightarrow>
      if P c then Some (last_char (takeWhile P (c # cs)), dropWhile P cs) else None) = Some (out, rest)"
  then obtain c cs where t: "t = c # cs" by (cases t) auto
  have c: "P c" and out: "out = [last (c # takeWhile P cs)]" and rest: "rest = dropWhile P cs"
    using a unfolding t by (simp_all add: last_char_def split: if_splits)
  have 2: "t = (c # takeWhile P cs) @ rest" using t rest by simp
  have l: "last (c # takeWhile P cs) \<in> set (c # takeWhile P cs)" by (rule last_in_set) simp
  then have "P (last (c # takeWhile P cs))" using c by (auto dest: set_takeWhileD)
  then have 5: "\<not> py_whitespace (last (c # takeWhile P cs))" by (rule P)
  have 6: "last (c # takeWhile P cs) \<in> set t" using l unfolding 2 by simp
  show "tame_match t out rest"
    by (rule tame_match_plain [where pre = "c # takeWhile P cs"])
       (use 2 5 6 in \<open>simp_all add: out\<close>)
qed

lemma reorder_vowels_tame:
  assumes H: "\<forall>c\<in>set (vowel_and_mark_chars cls). \<not> py_whitespace c"
  shows "length (reorder_vowels cls t) \<le> length t \<and> (settled t \<longrightarrow> settled (reorder_vowels cls t))"
proof -
  have tm: "c \<in> set (tonemarks cls @ [0x0E4C]) \<Longrightarrow> \<not> py_whitespace c" for c
    using H by (auto simp: vowel_and_mark_chars_def norepeat_chars_def)
  have ab: "c \<in> set (above_v cls @ below_v cls) \<Longrightarrow> \<not> py_whitespace c" for c
    using H by (auto simp: vowel_and_mark_chars_def norepeat_chars_def)
  have t: "c \<in> set (tonemarks cls) \<Longrightarrow> \<not> py_whitespace c" for c
    using H by (auto simp: vowel_and_mark_chars_def norepeat_chars_def)
  have fv: "c \<in> set (follow_v cls) \<Longrightarrow> \<not> py_whitespace c" for c
    using H by (auto simp: vowel_and_mark_chars_def norepeat_chars_def)
  define t1 where "t1 = replace [0x0E40, 0x0E40] [0x0E41] t"
  define t2 where "t2 = swap_groups (\<lambda>c. c \<in> set (tonemarks cls @ [0x0E4C]))
                          (\<lambda>c. c \<in> set (above_v cls @ below_v cls)) t1"
  define t3 where "t3 = nikhahit_sara_aa (\<lambda>c. c \<in> set (tonemarks cls)) t2"
  define t4 where "t4 = swap_groups (\<lambda>c. c \<in> set (follow_v cls)) (\<lambda>c. c \<in> set (tonemarks cls)) t3"
  have r: "reorder_vowels cls t = lakkhangyao t4"
    by (simp only: reorder_vowels_def reorder_pairs_def fold.simps o_apply id_apply
          t1_def t2_def t3_def t4_def)
  have 1: "length t1 \<le> length t \<and> (settled t \<longrightarrow> settled t1)"
    unfolding t1_def by (rule replace_sara_e_tame)
  have 2: "length t2 \<le> length t1 \<and> (settled t1 \<longrightarrow> settled t2)"
    unfolding t2_def by (rule swap_groups_tame) (fact tm, fact ab)
  have 3: "length t3 \<le> length t2 \<and> (settled t2 \<longrightarrow> settled t3)"
    unfolding t3_def by (rule nikhahit_sara_aa_tame) (fact t)
  have 4: "length t4 \<le> length t3 \<and> (settled t3 \<longrightarrow> settled t4)"
    unfolding t4_def by (rule swap_groups_tame) (fact fv, fact t)
  have 5: "length (lakkhangyao t4) \<le> length t4 \<and> (settled t4 \<longrightarrow> settled (lakkhangyao t4))"
    by (rule lakkhangyao_tame)
  from 1 2 3 4 5 show ?thesis unfolding r by (meson order_trans)
qed

lemma fold_norepeat_tame:
  "\<forall>c\<in>set chs. \<not> py_whitespace c \<Longrightarrow>
   length (fold norepeat chs t) \<le> length t \<and> (settled t \<longrightarrow> settled (fold norepeat chs t))"
proof (induction chs arbitrary: t)
  case Nil
  then show ?case by simp
next
  case (Cons ch chs)
  have a: "length (norepeat ch t) \<le> length t \<and> (settled t \<longrightarrow> settled (norepeat ch t))"
    by (rule norepeat_tame) (use Cons.prems in simp)
  have b: "length (fold norepeat chs (norepeat ch t)) \<le> length (norepeat ch t)
     \<and> (settled (norepeat ch t) \<longrightarrow> settled (fold norepeat chs (norepeat ch t)))"
    by (rule Cons.IH) (use Cons.prems in simp)
  from a b show ?case by (simp only: fold_Cons o_apply) (meson order_trans)
qed

lemma remove_repeat_vowels_tame:
  assumes H: "\<forall>c\<in>set (vowel_and_mark_chars cls). \<not> py_whitespace c"
  shows "length (remove_repeat_vowels cls t) \<le> length t
     \<and> (settled t \<longrightarrow> settled (remove_repeat_vowels cls t))"
proof -
  define u where "u = reorder_vowels cls t"
  define v where "v = fold norepeat (norepeat_chars cls) u"
  have r: "remove_repeat_vowels cls t = sub_class_runs (\<lambda>c. c \<in> set (tonemarks cls)) last_char v"
    by (simp only: remove_repeat_vowels_def collapse_tonemarks_def u_def v_def)
  have 1: "length u \<le> length t \<and> (settled t \<longrightarrow> settled u)"
    unfolding u_def using H by (rule reorder_vowels_tame)
  have "\<forall>c\<in>set (norepeat_chars cls). \<not> py_whitespace c"
    using H by (simp add: vowel_and_mark_chars_def)
  then have 2: "length v \<le> length u \<and> (settled u \<longrightarrow> settled v)"
    unfolding v_def by (rule fold_norepeat_tame)
  have 3: "length (sub_class_runs (\<lambda>c. c \<in> set (tonemarks cls)) last_char v) \<le> length v
     \<and> (settled v \<longrightarrow> settled (sub_class_runs (\<lambda>c. c \<in> set (tonemarks cls)) last_char v))"
    by (rule collapse_tame) (use H in \<open>simp add: vowel_and_mark_chars_def\<close>)
  from 1 2 3 show ?thesis unfolding r by (meson order_trans)
qed

lemma remove_dup_spaces_settled: "settled (remove_dup_spaces (remove_zw t))"
proof -
  let ?s = "remove_dup_spaces (remove_zw t)"
  have "set ?s \<subseteq> set (remove_zw t)" by (rule set_remove_dup_spaces)
  moreover have "0x200B \<notin> set (remove_zw t)" "0x200C \<notin> set (remove_zw t)"
    by (auto simp: remove_zw_filter)
  ultimately have z: "0x200B \<notin> set ?s" "0x200C \<notin> set ?s" by blast+
  have i: "successively (\<lambda>x y. \<not> (sp_or_nl x \<and> sp_or_nl y)) ?s"
    by (rule remove_dup_spaces_isolated)
  have "?s = [] \<or> \<not> py_whitespace (last ?s)"
    using strip_ends [of "sub_newlines (dup_spaces_loop (remove_zw t))"]
    by (auto simp: remove_dup_spaces_def)
  with z i show ?thesis by (simp add: settled_def)
qed

lemma settled_dropWhile: "settled t \<Longrightarrow> settled (dropWhile P t)"
proof -
  assume s: "settled t"
  have t: "t = takeWhile P t @ dropWhile P t" by simp
  have "successively (\<lambda>x y. \<not> (sp_or_nl x \<and> sp_or_nl y)) (takeWhile P t @ dropWhile P t)"
    using s by (simp add: settled_def)
  then have 1: "successively (\<lambda>x y. \<not> (sp_or_nl x \<and> sp_or_nl y)) (dropWhile P t)"
    unfolding successively_append_iff by blast
  have 2: "dropWhile P t = [] \<or> \<not> py_whitespace (last (dropWhile P t))"
  proof (cases "dropWhile P t = []")
    case True
    then show ?thesis by blast
  next
    case False
    then have "last (takeWhile P t @ dropWhile P t) = last (dropWhile P t)" by (rule last_appendR)
    then have "last t = last (dropWhile P t)" by (simp only: takeWhile_dropWhile_id)
    moreover have "t \<noteq> []" using False by auto
    ultimately show ?thesis using s by (auto simp: settled_def)
  qed
  have "set (dropWhile P t) \<subseteq> set t" by (auto dest: set_dropWhileD)
  then have "0x200B \<notin> set (dropWhile P t)" "0x200C \<notin> set (dropWhile P t)"
    using s by (auto simp: settled_def)
  with 1 2 show ?thesis by (simp add: settled_def)
qed

lemma normalize_settled:
  assumes H: "\<forall>c\<in>set (vowel_and_mark_chars cls). \<not> py_whitespace c"
  shows "settled (normalize cls t)"
  unfolding normalize_def remove_dangling_def
  using remove_repeat_vowels_tame [OF H, of "remove_dup_spaces (remove_zw t)"]
    remove_dup_spaces_settled [of t]
  by (blast intro: settled_dropWhile)

lemma settled_remove_zw: "settled t \<Longrightarrow> remove_zw t = t"
  by (simp add: settled_def remove_zw_id)

lemma settled_remove_dup_spaces:
  assumes "settled t"
  shows "remove_dup_spaces t = dropWhile py_whitespace t"
proof -
  have iso: "successively (\<lambda>x y. \<not> (sp_or_nl x \<and> sp_or_nl y)) t"
    using assms by (simp add: settled_def)
  have "\<not> contains [space, space] t"
    using iso by (rule isolated_no_pair) (simp_all add: sp_or_nl_def)
  then have 1: "dup_spaces_loop t = t" by (simp add: dup_spaces_loop_squeeze squeeze_id)
  have 2: "sub_newlines t = t" using iso by (rule sub_newlines_id)
  let ?d = "dropWhile py_whitespace t"
  have "rev (dropWhile py_whitespace (rev ?d)) = ?d"
  proof (cases "?d = []")
    case True
    show ?thesis by (simp only: True rev.simps dropWhile.simps)
  next
    case False
    then have "last (takeWhile py_whitespace t @ ?d) = last ?d" by (rule last_appendR)
    then have "last t = last ?d" by (simp only: takeWhile_dropWhile_id)
    moreover have "t \<noteq> []" using False by auto
    ultimately have "\<not> py_whitespace (last ?d)" using assms by (auto simp: settled_def)
    then have "\<not> py_whitespace (hd (rev ?d))" using False by (simp add: hd_rev)
    then have "dropWhile py_whitespace (rev ?d) = rev ?d" using False
      by (cases "rev ?d") auto
    then show ?thesis by simp
  qed
  then show ?thesis by (simp add: remove_dup_spaces_def 1 2 strip_def)
qed

text \<open>
  C4, as the code has it. Applied to its own result, \<open>normalize\<close> finds no zero-width
  character and no run of spaces and newlines: the second application trims the white
  space that the removal of the dangling characters left at the start, and applies the
  rules of \<open>remove_repeat_vowels\<close> once more. So applying \<open>normalize\<close> twice gives what
  applying it once gives exactly when the result of the first application does not begin
  with white space and is left unchanged by \<open>remove_repeat_vowels\<close>. The character
  classes are taken without white space, as the Thai tables are.
\<close>

theorem normalize_idempotent_iff:
  assumes H: "\<forall>c\<in>set (vowel_and_mark_chars cls). \<not> py_whitespace c"
  shows "normalize cls (normalize cls text)
       = remove_dangling cls (remove_repeat_vowels cls (dropWhile py_whitespace (normalize cls text)))
     \<and> (normalize cls (normalize cls text) = normalize cls text
         \<longleftrightarrow> (normalize cls text = [] \<or> \<not> py_whitespace (hd (normalize cls text)))
             \<and> remove_repeat_vowels cls (normalize cls text) = normalize cls text)"
proof -
  define y where "y = normalize cls text"
  define D where "D = (\<lambda>c. c \<in> set (dangling_chars cls))"
  have s: "settled y" unfolding y_def using H by (rule normalize_settled)
  have z: "remove_zw y = y" using s by (rule settled_remove_zw)
  have d: "remove_dup_spaces y = dropWhile py_whitespace y" using s by (rule settled_remove_dup_spaces)
  have n: "normalize cls y = dropWhile D (remove_repeat_vowels cls (dropWhile py_whitespace y))"
    by (simp add: normalize_def [of cls y] z d remove_dangling_def D_def)
  have yd: "dropWhile D y = y"
    by (simp add: y_def normalize_def [of cls "text"] remove_dangling_def D_def)
  have len: "length (remove_repeat_vowels cls u) \<le> length u" for u
    using remove_repeat_vowels_tame [OF H, of u] by blast
  have "normalize cls y = y
     \<longleftrightarrow> (y = [] \<or> \<not> py_whitespace (hd y)) \<and> remove_repeat_vowels cls y = y"
  proof
    assume idem: "normalize cls y = y"
    let ?w = "dropWhile py_whitespace y"
    let ?r = "remove_repeat_vowels cls ?w"
    have "length y = length (dropWhile D ?r)" using idem n by simp
    also have "\<dots> \<le> length ?r" by (rule length_dropWhile_le)
    also have "\<dots> \<le> length ?w" by (rule len)
    finally have l: "length y \<le> length ?w" .
    have w: "?w = y"
    proof (rule ccontr)
      assume "?w \<noteq> y"
      then have "takeWhile py_whitespace y \<noteq> []" by (metis takeWhile_dropWhile_id self_append_conv2)
      moreover have "length y = length (takeWhile py_whitespace y) + length ?w"
        by (metis length_append takeWhile_dropWhile_id)
      ultimately show False using l by simp
    qed
    have lead: "y = [] \<or> \<not> py_whitespace (hd y)"
    proof (cases y)
      case Nil
      then show ?thesis by simp
    next
      case (Cons a list)
      have "\<not> py_whitespace a"
      proof
        assume "py_whitespace a"
        then have "?w = dropWhile py_whitespace list" using Cons by simp
        then have "length ?w \<le> length list" by (simp add: length_dropWhile_le)
        then show False using w Cons by simp
      qed
      with Cons show ?thesis by simp
    qed
    have e: "dropWhile D (remove_repeat_vowels cls y) = y" using idem n w by simp
    have "remove_repeat_vowels cls y
        = takeWhile D (remove_repeat_vowels cls y) @ dropWhile D (remove_repeat_vowels cls y)"
      by simp
    then have "length (remove_repeat_vowels cls y)
        = length (takeWhile D (remove_repeat_vowels cls y)) + length y"
      using e by (metis length_append)
    with len [of y] have "takeWhile D (remove_repeat_vowels cls y) = []" by simp
    then have "remove_repeat_vowels cls y = dropWhile D (remove_repeat_vowels cls y)"
      by (metis takeWhile_dropWhile_id self_append_conv2)
    with e have "remove_repeat_vowels cls y = y" by simp
    with lead show "(y = [] \<or> \<not> py_whitespace (hd y)) \<and> remove_repeat_vowels cls y = y" by blast
  next
    assume a: "(y = [] \<or> \<not> py_whitespace (hd y)) \<and> remove_repeat_vowels cls y = y"
    then have "dropWhile py_whitespace y = y" by (cases y) auto
    with a n yd show "normalize cls y = y" by simp
  qed
  moreover have "normalize cls y
      = remove_dangling cls (remove_repeat_vowels cls (dropWhile py_whitespace y))"
    by (simp only: n remove_dangling_def D_def)
  ultimately show ?thesis unfolding y_def by blast
qed

theorem normalize_idempotent_iff_witness:
  "filter py_whitespace (vowel_and_mark_chars thai_classes) = []
   \<and> normalize thai_classes
        [0x0E40, 0x0E40, 0x0E1B, 0x0E25, 0x0E01, 0x200B, 0x20, 0x20,
         0x0E19, 0x0E32, 0x0E19, 0x0E32, 0x0E32, 0x0E32]
       = [0x0E41, 0x0E1B, 0x0E25, 0x0E01, 0x20, 0x0E19, 0x0E32, 0x0E19, 0x0E32]
   \<and> \<not> py_whitespace (hd [0x0E41, 0x0E1B, 0x0E25, 0x0E01, 0x20, 0x0E19, 0x0E32, 0x0E19, 0x0E32])
   \<and> remove_repeat_vowels thai_classes [0x0E41, 0x0E1B, 0x0E25, 0x0E01, 0x20, 0x0E19, 0x0E32, 0x0E19, 0x0E32]
       = [0x0E41, 0x0E1B, 0x0E25, 0x0E01, 0x20, 0x0E19, 0x0E32, 0x0E19, 0x0E32]
   \<and> normalize thai_classes (normalize thai_classes
        [0x0E40, 0x0E40, 0x0E1B, 0x0E25, 0x0E01, 0x200B, 0x20, 0x20,
         0x0E19, 0x0E32, 0x0E19, 0x0E32, 0x0E32, 0x0E32])
       = normalize thai_classes
        [0x0E40, 0x0E40, 0x0E1B, 0x0E25, 0x0E01, 0x200B, 0x20, 0x20,
         0x0E19, 0x0E32, 0x0E19, 0x0E32, 0x0E32, 0x0E32]"
proof -
  let ?x = "[0x0E40, 0x0E40, 0x0E1B, 0x0E25, 0x0E01, 0x200B, 0x20, 0x20,
         0x0E19, 0x0E32, 0x0E19, 0x0E32, 0x0E32, 0x0E32] :: ustring"
  let ?z = "[0x0E40, 0x0E40, 0x0E1B, 0x0E25, 0x0E01, 0x20, 0x20,
         0x0E19, 0x0E32, 0x0E19, 0x0E32, 0x0E32, 0x0E32] :: ustring"
  let ?s = "[0x0E40, 0x0E40, 0x0E1B, 0x0E25, 0x0E01, 0x20,
         0x0E19, 0x0E32, 0x0E19, 0x0E32, 0x0E32, 0x0E32] :: ustring"
  let ?r = "[0x0E41, 0x0E1B, 0x0E25, 0x0E01, 0x20,
         0x0E19, 0x0E32, 0x0E19, 0x0E32, 0x0E32, 0x0E32] :: ustring"
  let ?y = "[0x0E41, 0x0E1B, 0x0E25, 0x0E01, 0x20, 0x0E19, 0x0E32, 0x0E19, 0x0E32] :: ustring"
  have h: "\<forall>c\<in>set (vowel_and_mark_chars thai_classes). \<not> py_whitespace c"
    by (simp add: vowel_and_mark_chars_def norepeat_chars_def thai_classes_def py_whitespace_def)
  have z1: "remove_zw ?x = ?z" by (simp add: remove_zw_filter)
  have s1: "remove_dup_spaces ?z = ?s"
    by (simp add: remove_dup_spaces_def dup_spaces_loop_squeeze squeeze_def space_def newline_def
          sp_or_nl_def strip_def py_whitespace_def)
  have r1: "reorder_vowels thai_classes ?s = ?r"
    by (simp add: reorder_vowels_def reorder_pairs_def thai_classes_def)
  have n1: "fold norepeat (norepeat_chars thai_classes) ?r = ?y"
    by (simp add: norepeat_chars_def thai_classes_def space_def Let_def)
  have c1: "collapse_tonemarks thai_classes ?y = ?y"
    by (simp add: collapse_tonemarks_def thai_classes_def last_char_def)
  have d1: "remove_dangling thai_classes ?y = ?y"
    by (simp add: remove_dangling_def dangling_chars_def thai_classes_def)
  have first: "normalize thai_classes ?x = ?y"
    by (simp only: normalize_def remove_repeat_vowels_def z1 s1 r1 n1 c1 d1)
  have r2: "reorder_vowels thai_classes ?y = ?y"
    by (simp add: reorder_vowels_def reorder_pairs_def thai_classes_def)
  have n2: "fold norepeat (norepeat_chars thai_classes) ?y = ?y"
    by (simp add: norepeat_chars_def thai_classes_def space_def Let_def)
  have fp: "remove_repeat_vowels thai_classes ?y = ?y"
    by (simp only: remove_repeat_vowels_def r2 n2 c1)
  have lead: "\<not> py_whitespace (hd ?y)" by (simp add: py_whitespace_def)
  have "normalize thai_classes (normalize thai_classes ?x) = normalize thai_classes ?x"
    using normalize_idempotent_iff [OF h, of ?x] lead fp unfolding first by blast
  moreover have "filter py_whitespace (vowel_and_mark_chars thai_classes) = []"
    using h by (simp only: filter_empty_conv)
  ultimately show ?thesis using first lead fp by blast
qed


text \<open>
  C4 as stated fails. For the text U+0E48 U+0020 U+0E01 (a tone mark, a space, a
  consonant) the spaces are collapsed and trimmed before the dangling tone mark is
  removed, so the result U+0020 U+0E01 begins with a space, which the second application
  trims.
\<close>

theorem normalize_not_idempotent:
  "normalize thai_classes [0x0E48, 0x20, 0x0E01] = [0x20, 0x0E01]
   \<and> normalize thai_classes [0x20, 0x0E01] = [0x0E01]
   \<and> normalize thai_classes (normalize thai_classes [0x0E48, 0x20, 0x0E01])
       \<noteq> normalize thai_classes [0x0E48, 0x20, 0x0E01]"
proof -
  let ?x = "[0x0E48, 0x20, 0x0E01] :: ustring"
  have z1: "remove_zw ?x = ?x" by (simp add: remove_zw_filter)
  have s1: "remove_dup_spaces ?x = ?x"
    by (simp add: remove_dup_spaces_def dup_spaces_loop_squeeze squeeze_def space_def newline_def
          sp_or_nl_def strip_def py_whitespace_def)
  have r1: "reorder_vowels thai_classes ?x = ?x"
    by (simp add: reorder_vowels_def reorder_pairs_def thai_classes_def)
  have n1: "fold norepeat (norepeat_chars thai_classes) ?x = ?x"
    by (simp add: norepeat_chars_def thai_classes_def space_def)
  have c1: "collapse_tonemarks thai_classes ?x = ?x"
    by (simp add: collapse_tonemarks_def thai_classes_def last_char_def)
  have d1: "remove_dangling thai_classes ?x = [0x20, 0x0E01]"
    by (simp add: remove_dangling_def dangling_chars_def thai_classes_def)
  have first: "normalize thai_classes ?x = [0x20, 0x0E01]"
    by (simp only: normalize_def remove_repeat_vowels_def z1 s1 r1 n1 c1 d1)
  let ?y = "[0x20, 0x0E01] :: ustring"
  have z2: "remove_zw ?y = ?y" by (simp add: remove_zw_filter)
  have s2: "remove_dup_spaces ?y = [0x0E01]"
    by (simp add: remove_dup_spaces_def dup_spaces_loop_squeeze squeeze_def space_def newline_def
          sp_or_nl_def strip_def py_whitespace_def)
  have r2: "reorder_vowels thai_classes [0x0E01] = [0x0E01]"
    by (simp add: reorder_vowels_def reorder_pairs_def thai_classes_def)
  have n2: "fold norepeat (norepeat_chars thai_classes) [0x0E01] = [0x0E01]"
    by (simp add: norepeat_chars_def thai_classes_def space_def)
  have c2: "collapse_tonemarks thai_classes [0x0E01] = [0x0E01]"
    by (simp add: collapse_tonemarks_def thai_classes_def last_char_def)
  have d2: "remove_dangling thai_classes [0x0E01] = [0x0E01]"
    by (simp add: remove_dangling_def dangling_chars_def thai_classes_def)
  have second: "normalize thai_classes ?y = [0x0E01]"
    by (simp only: normalize_def remove_repeat_vowels_def z2 s2 r2 n2 c2 d2)
  have "normalize thai_classes (normalize thai_classes ?x) = [0x0E01]"
    by (simp only: first second)
  then have "normalize thai_classes (normalize thai_classes ?x) \<noteq> normalize thai_classes ?x"
    by (simp add: first)
  with first second show ?thesis by blast
qed

text \<open>
  The second condition is needed as well as the first. For the text U+0E01 U+0E48 U+0E34
  U+0E48 U+0E34 (a consonant, then twice a tone mark before an above vowel) the first
  application swaps each pair, which leaves a tone mark before an above vowel again; the
  second application swaps that pair and removes the duplicates.
\<close>

lemma normalize_second_round:
  "normalize thai_classes [0x0E01, 0x0E48, 0x0E34, 0x0E48, 0x0E34] = [0x0E01, 0x0E34, 0x0E48, 0x0E34, 0x0E48]
   \<and> remove_repeat_vowels thai_classes [0x0E01, 0x0E34, 0x0E48, 0x0E34, 0x0E48] = [0x0E01, 0x0E34, 0x0E48]
   \<and> normalize thai_classes [0x0E01, 0x0E34, 0x0E48, 0x0E34, 0x0E48] = [0x0E01, 0x0E34, 0x0E48]"
proof -
  let ?x = "[0x0E01, 0x0E48, 0x0E34, 0x0E48, 0x0E34] :: ustring"
  let ?y = "[0x0E01, 0x0E34, 0x0E48, 0x0E34, 0x0E48] :: ustring"
  let ?v = "[0x0E01, 0x0E34, 0x0E34, 0x0E48, 0x0E48] :: ustring"
  let ?w = "[0x0E01, 0x0E34, 0x0E48, 0x0E48] :: ustring"
  let ?u = "[0x0E01, 0x0E34, 0x0E48] :: ustring"
  have z1: "remove_zw ?x = ?x" by (simp add: remove_zw_filter)
  have s1: "remove_dup_spaces ?x = ?x"
    by (simp add: remove_dup_spaces_def dup_spaces_loop_squeeze squeeze_def space_def newline_def
          sp_or_nl_def strip_def py_whitespace_def)
  have r1: "reorder_vowels thai_classes ?x = ?y"
    by (simp add: reorder_vowels_def reorder_pairs_def thai_classes_def)
  have n1: "fold norepeat (norepeat_chars thai_classes) ?y = ?y"
    by (simp add: norepeat_chars_def thai_classes_def space_def Let_def)
  have c1: "collapse_tonemarks thai_classes ?y = ?y"
    by (simp add: collapse_tonemarks_def thai_classes_def last_char_def)
  have d1: "remove_dangling thai_classes ?y = ?y"
    by (simp add: remove_dangling_def dangling_chars_def thai_classes_def)
  have first: "normalize thai_classes ?x = ?y"
    by (simp only: normalize_def remove_repeat_vowels_def z1 s1 r1 n1 c1 d1)
  have z2: "remove_zw ?y = ?y" by (simp add: remove_zw_filter)
  have s2: "remove_dup_spaces ?y = ?y"
    by (simp add: remove_dup_spaces_def dup_spaces_loop_squeeze squeeze_def space_def newline_def
          sp_or_nl_def strip_def py_whitespace_def)
  have r2: "reorder_vowels thai_classes ?y = ?v"
    by (simp add: reorder_vowels_def reorder_pairs_def thai_classes_def)
  have n2: "fold norepeat (norepeat_chars thai_classes) ?v = ?w"
    by (simp add: norepeat_chars_def thai_classes_def space_def Let_def)
  have c2: "collapse_tonemarks thai_classes ?w = ?u"
    by (simp add: collapse_tonemarks_def thai_classes_def last_char_def)
  have d2: "remove_dangling thai_classes ?u = ?u"
    by (simp add: remove_dangling_def dangling_chars_def thai_classes_def)
  have rrv: "remove_repeat_vowels thai_classes ?y = ?u"
    by (simp only: remove_repeat_vowels_def r2 n2 c2)
  have second: "normalize thai_classes ?y = ?u"
    by (simp only: normalize_def remove_repeat_vowels_def z2 s2 r2 n2 c2 d2)
  from first rrv second show ?thesis by blast
qed

end
